theory Spec2Isabelle
  imports Main
begin

section \<open>Data model of the toy scheduler\<close>

text \<open>
  The scheduler keeps three kinds of objects behind pointers: goroutines \<open>G\<close>,
  processors \<open>P\<close> and machines \<open>M\<close>. A pointer is an address into a heap of
  objects of its kind; the fields \<open>M.P\<close> and \<open>M.G\<close>, which the code sets to
  \<open>nil\<close>, are optional addresses. Go's \<open>int\<close> has 64 bits. The id counter
  \<open>nextGID\<close> is an integer whose increment wraps around as Go's does. The queue
  length \<open>NumG\<close> is an integer without a bound: it moves with the length of a slice
  that is in memory.
\<close>

type_synonym gref = nat
type_synonym pref = nat
type_synonym mref = nat

text \<open>A \<open>time.Time\<close> in nanoseconds; \<open>0\<close> is the zero time \<open>time.Time{}\<close>.\<close>

type_synonym time = int

definition Millisecond :: int where
  "Millisecond = 1000000"

definition IsZero :: "time \<Rightarrow> bool" where
  "IsZero t = (t = 0)"

text \<open>\<open>time.Since(t)\<close>, given the clock reading \<open>now\<close> that the call takes.\<close>

definition Since :: "time \<Rightarrow> time \<Rightarrow> int" where
  "Since now t = now - t"

text \<open>An unbuffered \<open>chan struct{}\<close> that has been made: it is open or closed.\<close>

datatype chan_state = Open | Closed

text \<open>
  The work routine \<open>Func\<close> is user code. It acts on a world \<open>'w\<close> of its own and
  either returns (\<open>Inr\<close>) or panics with a message (\<open>Inl\<close>).
\<close>

record 'w G =
  G_ID :: int
  G_Func :: "'w \<Rightarrow> string + 'w"
  G_Status :: string
  G_blockChan :: "chan_state option"

record P =
  P_ID :: int
  P_RunQ :: "gref list"
  P_NumG :: int

record M =
  M_ID :: int
  M_P :: "pref option"
  M_G :: "gref option"
  M_stop :: "chan_state option"
  M_parkTime :: time

text \<open>The buffered channel \<open>availPs\<close>: its queued pointers and its capacity.\<close>

record pchan =
  buf :: "pref list"
  cap :: nat

text \<open>One event for each line the code prints, with the numbers it formats.\<close>

datatype event =
    EvWaiting
  | EvResumed
  | EvGoroutineDone
  | EvOverflow int int
  | EvGrabbed int int
  | EvStole int int int
  | EvParking int int
  | EvStarting int int int
  | EvFinished int int int
  | EvBlockedHandoff int int int

text \<open>
  The program state: the fields of \<open>Scheduler\<close> (\<open>Ps\<close>, \<open>Ms\<close>, \<open>nextGID\<close>,
  \<open>globalQ\<close>, \<open>availPs\<close>), the three heaps with the next free address, the world of
  the work routines and the printed output. The mutex \<open>mu\<close> has no field: every
  function below is one call running alone.
\<close>

record 'w state =
  Ps :: "pref list"
  Ms :: "mref list"
  nextGID :: int
  globalQ :: "gref list"
  availPs :: "pchan option"
  Gheap :: "gref \<Rightarrow> 'w G"
  Pheap :: "pref \<Rightarrow> P"
  Mheap :: "mref \<Rightarrow> M"
  fresh :: nat
  world :: 'w
  out :: "event list"

text \<open>
  What a call does: it returns, it panics, or it blocks on a channel operation that
  nothing in the state lets proceed.
\<close>

datatype 'a outcome = Returns 'a | Panics string | Blocked

definition upd_G :: "gref \<Rightarrow> ('w G \<Rightarrow> 'w G) \<Rightarrow> 'w state \<Rightarrow> 'w state" where
  "upd_G g f s = s\<lparr>Gheap := (Gheap s)(g := f (Gheap s g))\<rparr>"

definition upd_P :: "pref \<Rightarrow> (P \<Rightarrow> P) \<Rightarrow> 'w state \<Rightarrow> 'w state" where
  "upd_P p f s = s\<lparr>Pheap := (Pheap s)(p := f (Pheap s p))\<rparr>"

definition upd_M :: "mref \<Rightarrow> (M \<Rightarrow> M) \<Rightarrow> 'w state \<Rightarrow> 'w state" where
  "upd_M m f s = s\<lparr>Mheap := (Mheap s)(m := f (Mheap s m))\<rparr>"

definition emit :: "event \<Rightarrow> 'w state \<Rightarrow> 'w state" where
  "emit ev s = s\<lparr>out := out s @ [ev]\<rparr>"

section \<open>Channel operations\<close>

text \<open>
  A receive from an open unbuffered channel waits for a sender. The stream \<open>sender\<close>
  says at which instants after the receive began a sender is ready; the receive
  returns the first of them, and does not return when there is none.
\<close>

partial_function (option) await :: "(nat \<Rightarrow> bool) \<Rightarrow> nat \<Rightarrow> nat option" where
  "await sender k = (if sender k then Some k else await sender (Suc k))"

declare await.simps [code]

text \<open>\<open><-c\<close>: a closed channel yields at once, an open one waits.\<close>

definition chan_recv :: "chan_state \<Rightarrow> (nat \<Rightarrow> bool) \<Rightarrow> nat option" where
  "chan_recv c sender = (case c of Closed \<Rightarrow> Some 0 | Open \<Rightarrow> await sender 0)"

text \<open>
  \<open>g.blockChan <- struct{}{}\<close> sent while no goroutine is receiving from the channel
  (\<open>G.Run\<close> is not at its receive): a nil channel and an open channel block the
  sender, a closed channel panics.
\<close>

definition send_blockChan :: "gref \<Rightarrow> 'w state \<Rightarrow> 'w state outcome" where
  "send_blockChan g s =
     (case G_blockChan (Gheap s g) of
        None \<Rightarrow> Blocked
      | Some Open \<Rightarrow> Blocked
      | Some Closed \<Rightarrow> Panics ''send on closed channel'')"

text \<open>
  \<open>s.availPs <- p\<close>: the send completes while the buffer has room. On a nil channel
  and on a full buffer the sender blocks (no receiver waits on \<open>availPs\<close>: every
  receive is a \<open>select\<close> with a \<open>default\<close>).
\<close>

definition send_availPs :: "pref \<Rightarrow> 'w state \<Rightarrow> 'w state outcome" where
  "send_availPs p s =
     (case availPs s of
        None \<Rightarrow> Blocked
      | Some c \<Rightarrow>
          if length (buf c) < cap c
          then Returns (s\<lparr>availPs := Some (c\<lparr>buf := buf c @ [p]\<rparr>)\<rparr>)
          else Blocked)"

section \<open>Operations\<close>

text \<open>\<open>G.Run\<close>.\<close>

definition G_Run :: "(nat \<Rightarrow> bool) \<Rightarrow> gref \<Rightarrow> 'w state \<Rightarrow> 'w state outcome" where
  "G_Run sender g s =
     (case G_Func (Gheap s g) (world s) of
        Inl e \<Rightarrow> Panics e
      | Inr w \<Rightarrow>
          let s1 = s\<lparr>world := w\<rparr> in
          (case G_blockChan (Gheap s1 g) of
             None \<Rightarrow>
               Returns (emit EvGoroutineDone (upd_G g (\<lambda>x. x\<lparr>G_Status := ''done''\<rparr>) s1))
           | Some c \<Rightarrow>
               let s2 = emit EvWaiting s1 in
               (case chan_recv c sender of
                  None \<Rightarrow> Blocked
                | Some _ \<Rightarrow>
                    let s3 = emit EvResumed s2 in
                    (case c of
                       Closed \<Rightarrow> Panics ''close of closed channel''
                     | Open \<Rightarrow>
                         let s4 = upd_G g (\<lambda>x. x\<lparr>G_blockChan := Some Closed\<rparr>) s3 in
                         Returns (emit EvGoroutineDone
                                    (upd_G g (\<lambda>x. x\<lparr>G_Status := ''done''\<rparr>) s4))))))"

text \<open>
  The values of a 64-bit \<open>int\<close>, and what the machine keeps of an integer result:
  \<open>9223372036854775807 + 1\<close> is \<open>-9223372036854775808\<close>.
\<close>

definition int64 :: "int \<Rightarrow> bool" where
  "int64 n = (- (2 ^ 63) \<le> n \<and> n < 2 ^ 63)"

definition wrap64 :: "int \<Rightarrow> int" where
  "wrap64 n = (n + 2 ^ 63) mod 2 ^ 64 - 2 ^ 63"

text \<open>
  \<open>NewG\<close>: \<open>s.nextGID++\<close> wraps; the new object is allocated at the next free
  address.
\<close>

definition NewG :: "'w state \<Rightarrow> ('w \<Rightarrow> string + 'w) \<Rightarrow> bool \<Rightarrow> gref \<times> 'w state" where
  "NewG s f block =
     (let ident = nextGID s;
          s1 = s\<lparr>nextGID := wrap64 (nextGID s + 1)\<rparr>;
          g = \<lparr>G_ID = ident, G_Func = f, G_Status = ''runnable'', G_blockChan = None\<rparr>;
          g' = (if block then g\<lparr>G_blockChan := Some Open\<rparr> else g);
          r = fresh s1
      in (r, s1\<lparr>Gheap := (Gheap s1)(r := g'), fresh := Suc r\<rparr>))"

text \<open>\<open>AddP\<close>.\<close>

definition AddP :: "'w state \<Rightarrow> int \<Rightarrow> pref \<times> 'w state" where
  "AddP s ident =
     (let p = \<lparr>P_ID = ident, P_RunQ = [], P_NumG = 0\<rparr>;
          r = fresh s
      in (r, s\<lparr>Pheap := (Pheap s)(r := p), fresh := Suc r, Ps := Ps s @ [r]\<rparr>))"

text \<open>
  \<open>AddM\<close>. The goroutine it starts is \<open>M_run\<close> below; a negative index passes the
  explicit check and panics at \<open>s.Ps[pIndex]\<close>.
\<close>

definition AddM :: "'w state \<Rightarrow> int \<Rightarrow> int \<Rightarrow> (mref \<times> 'w state) outcome" where
  "AddM s ident pIndex =
     (if pIndex \<ge> int (length (Ps s)) then Panics ''P index out of bounds''
      else
        let s1 = (if availPs s = None
                  then s\<lparr>availPs := Some \<lparr>buf = [], cap = length (Ps s)\<rparr>\<rparr>
                  else s)
        in if pIndex < 0 then Panics ''index out of range''
           else
             let m = \<lparr>M_ID = ident, M_P = Some (Ps s1 ! nat pIndex), M_G = None,
                      M_stop = Some Open, M_parkTime = 0\<rparr>;
                 r = fresh s1
             in Returns (r, s1\<lparr>Mheap := (Mheap s1)(r := m), fresh := Suc r,
                               Ms := Ms s1 @ [r]\<rparr>))"

text \<open>\<open>Enqueue\<close>.\<close>

definition Enqueue :: "'w state \<Rightarrow> pref \<Rightarrow> gref \<Rightarrow> 'w state" where
  "Enqueue s p g =
     (if P_NumG (Pheap s p) > 5
      then emit (EvOverflow (G_ID (Gheap s g)) (P_ID (Pheap s p)))
             (s\<lparr>globalQ := globalQ s @ [g]\<rparr>)
      else upd_G g (\<lambda>x. x\<lparr>G_Status := ''runnable''\<rparr>)
             (upd_P p (\<lambda>x. x\<lparr>P_RunQ := P_RunQ x @ [g], P_NumG := P_NumG x + 1\<rparr>) s))"

text \<open>
  What one call of \<open>scheduleOnce\<close> reads from outside the state: the clock at the
  cooldown test, the clock at \<open>time.Now()\<close> when it parks, and the senders on the
  channel of the task it runs.
\<close>

record env =
  sinceNow :: time
  parkNow :: time
  sender :: "nat \<Rightarrow> bool"

text \<open>Control flow inside \<open>scheduleOnce\<close>: return from the call, or go on.\<close>

datatype ('a, 'b) flow = Ret 'a | Cont 'b

text \<open>The first block of \<open>scheduleOnce\<close>: \<open>if m.P == nil { ... }\<close>.\<close>

definition acquire :: "mref \<Rightarrow> env \<Rightarrow> 'w state \<Rightarrow> ('w state, pref \<times> 'w state) flow" where
  "acquire m e s =
     (case M_P (Mheap s m) of
        Some p \<Rightarrow> Cont (p, s)
      | None \<Rightarrow>
          if \<not> IsZero (M_parkTime (Mheap s m))
             \<and> Since (sinceNow e) (M_parkTime (Mheap s m)) < 200 * Millisecond
          then Ret s
          else
            let s1 = upd_M m (\<lambda>x. x\<lparr>M_parkTime := 0\<rparr>) s in
            (case availPs s1 of
               None \<Rightarrow> Ret s1
             | Some c \<Rightarrow>
                 (case buf c of
                    [] \<Rightarrow> Ret s1
                  | p # rest \<Rightarrow>
                      let s2 = s1\<lparr>availPs := Some (c\<lparr>buf := rest\<rparr>)\<rparr>;
                          s3 = upd_M m (\<lambda>x. x\<lparr>M_P := Some p\<rparr>) s2
                      in Cont ((p, emit (EvGrabbed (M_ID (Mheap s3 m)) (P_ID (Pheap s3 p))) s3)))))"

text \<open>
  Handing the processor back, as both parking paths write it: the send on
  \<open>availPs\<close> first, then \<open>m.P = nil\<close> and \<open>m.parkTime = time.Now()\<close>.
\<close>

definition park_clear :: "mref \<Rightarrow> env \<Rightarrow> 'w state \<Rightarrow> 'w state" where
  "park_clear m e s =
     upd_M m (\<lambda>x. x\<lparr>M_parkTime := parkNow e\<rparr>) (upd_M m (\<lambda>x. x\<lparr>M_P := None\<rparr>) s)"

definition park :: "mref \<Rightarrow> pref \<Rightarrow> env \<Rightarrow> 'w state \<Rightarrow> 'w state outcome" where
  "park m p e s =
     (case send_availPs p s of
        Returns s1 \<Rightarrow> Returns (park_clear m e s1)
      | Panics x \<Rightarrow> Panics x
      | Blocked \<Rightarrow> Blocked)"

text \<open>The second block: \<open>if m.P.NumG == 0 { ... }\<close>, stealing from \<open>globalQ\<close> or parking.\<close>

definition steal_or_park ::
    "mref \<Rightarrow> pref \<Rightarrow> env \<Rightarrow> 'w state \<Rightarrow> ('w state outcome, 'w state) flow" where
  "steal_or_park m p e s =
     (if P_NumG (Pheap s p) = 0
      then
        (case globalQ s of
           g # rest \<Rightarrow>
             let s1 = s\<lparr>globalQ := rest\<rparr>;
                 s2 = upd_P p (\<lambda>x. x\<lparr>P_RunQ := P_RunQ x @ [g], P_NumG := P_NumG x + 1\<rparr>) s1
             in Cont (emit (EvStole (M_ID (Mheap s2 m)) (G_ID (Gheap s2 g)) (P_ID (Pheap s2 p))) s2)
         | [] \<Rightarrow>
             Ret (park m p e (emit (EvParking (M_ID (Mheap s m)) (P_ID (Pheap s p))) s)))
      else Cont s)"

text \<open>
  The third block. First the pop: \<open>g := m.P.RunQ[0]\<close>, which is a run-time
  panic on an empty slice, then the new slice and count, \<open>m.G = g\<close>, the status
  \<open>running\<close> and the line printed.
\<close>

definition pop_head :: "mref \<Rightarrow> pref \<Rightarrow> 'w state \<Rightarrow> (gref \<times> 'w state) outcome" where
  "pop_head m p s =
     (case P_RunQ (Pheap s p) of
        [] \<Rightarrow> Panics ''index out of range''
      | g # rest \<Rightarrow>
          let s1 = upd_P p (\<lambda>x. x\<lparr>P_RunQ := rest, P_NumG := P_NumG x - 1\<rparr>) s;
              s2 = upd_M m (\<lambda>x. x\<lparr>M_G := Some g\<rparr>) s1;
              s3 = upd_G g (\<lambda>x. x\<lparr>G_Status := ''running''\<rparr>) s2
          in Returns (g, emit (EvStarting (M_ID (Mheap s3 m)) (P_ID (Pheap s3 p))
                                 (G_ID (Gheap s3 g))) s3))"

text \<open>What follows the return of \<open>g.Run()\<close>: \<open>m.G = nil\<close> and the test of the status.\<close>

definition after_run :: "mref \<Rightarrow> pref \<Rightarrow> env \<Rightarrow> gref \<Rightarrow> 'w state \<Rightarrow> 'w state outcome" where
  "after_run m p e g s =
     (let s1 = upd_M m (\<lambda>x. x\<lparr>M_G := None\<rparr>) s in
      if G_Status (Gheap s1 g) = ''done''
      then Returns (emit (EvFinished (M_ID (Mheap s1 m)) (P_ID (Pheap s1 p))
                            (G_ID (Gheap s1 g))) s1)
      else park m p e
             (emit (EvBlockedHandoff (M_ID (Mheap s1 m)) (P_ID (Pheap s1 p))
                      (G_ID (Gheap s1 g))) s1))"

definition run_head :: "mref \<Rightarrow> pref \<Rightarrow> env \<Rightarrow> 'w state \<Rightarrow> 'w state outcome" where
  "run_head m p e s =
     (case pop_head m p s of
        Panics x \<Rightarrow> Panics x
      | Blocked \<Rightarrow> Blocked
      | Returns (g, s1) \<Rightarrow>
          (case G_Run (sender e) g s1 of
             Panics x \<Rightarrow> Panics x
           | Blocked \<Rightarrow> Blocked
           | Returns s2 \<Rightarrow> after_run m p e g s2))"

text \<open>\<open>M.scheduleOnce\<close>.\<close>

definition scheduleOnce :: "mref \<Rightarrow> env \<Rightarrow> 'w state \<Rightarrow> 'w state outcome" where
  "scheduleOnce m e s =
     (case acquire m e s of
        Ret s1 \<Rightarrow> Returns s1
      | Cont (p, s1) \<Rightarrow>
          (case steal_or_park m p e s1 of
             Ret r \<Rightarrow> r
           | Cont s2 \<Rightarrow> run_head m p e s2))"

text \<open>
  \<open>M.run\<close>: the loop \<open>for { select { case <-m.stop: return; default: m.scheduleOnce(s) } }\<close>.
  The list holds what each iteration reads from outside; \<open>None\<close> says that the loop
  is still running after these iterations.
\<close>

fun M_run :: "mref \<Rightarrow> env list \<Rightarrow> 'w state \<Rightarrow> 'w state outcome option" where
  "M_run m [] s = (if M_stop (Mheap s m) = Some Closed then Some (Returns s) else None)"
| "M_run m (e # es) s =
     (if M_stop (Mheap s m) = Some Closed then Some (Returns s)
      else
        (case scheduleOnce m e s of
           Returns s' \<Rightarrow> M_run m es s'
         | Panics x \<Rightarrow> Some (Panics x)
         | Blocked \<Rightarrow> Some Blocked))"

text \<open>Several \<open>Enqueue\<close> calls in a row, as \<open>main\<close> makes them.\<close>

fun Enqueue_all :: "'w state \<Rightarrow> pref \<Rightarrow> gref list \<Rightarrow> 'w state" where
  "Enqueue_all s p [] = s"
| "Enqueue_all s p (g # gs) = Enqueue_all (Enqueue s p g) p gs"

text \<open>Several \<open>NewG\<close> calls in a row; the pointers come back in the order of the calls.\<close>

fun NewG_all ::
    "'w state \<Rightarrow> (('w \<Rightarrow> string + 'w) \<times> bool) list \<Rightarrow> gref list \<times> 'w state" where
  "NewG_all s [] = ([], s)"
| "NewG_all s (fb # rest) =
     (let (r, s1) = NewG s (fst fb) (snd fb);
          (rs, s2) = NewG_all s1 rest
      in (r # rs, s2))"

text \<open>Several \<open>scheduleOnce\<close> calls of one worker in a row, stopping at a panic or a block.\<close>

fun scheduleTimes :: "mref \<Rightarrow> env list \<Rightarrow> 'w state \<Rightarrow> 'w state outcome" where
  "scheduleTimes m [] s = Returns s"
| "scheduleTimes m (e # es) s =
     (case scheduleOnce m e s of
        Returns s' \<Rightarrow> scheduleTimes m es s'
      | Panics x \<Rightarrow> Panics x
      | Blocked \<Rightarrow> Blocked)"

text \<open>\<open>g.Run()\<close> called again on the task that a first call has completed.\<close>

definition Run_twice :: "(nat \<Rightarrow> bool) \<Rightarrow> gref \<Rightarrow> 'w state \<Rightarrow> 'w state outcome" where
  "Run_twice sd g s =
     (case G_Run sd g s of
        Returns s1 \<Rightarrow> G_Run sd g s1
      | Panics x \<Rightarrow> Panics x
      | Blocked \<Rightarrow> Blocked)"

text \<open>
  A task is run and resumed by the senders \<open>sd\<close>; once \<open>Run\<close> has returned,
  one more value is sent on its channel.
\<close>

definition Run_then_send :: "(nat \<Rightarrow> bool) \<Rightarrow> gref \<Rightarrow> 'w state \<Rightarrow> 'w state outcome" where
  "Run_then_send sd g s =
     (case G_Run sd g s of
        Returns s1 \<Rightarrow> send_blockChan g s1
      | Panics x \<Rightarrow> Panics x
      | Blocked \<Rightarrow> Blocked)"

text \<open>The world that a call leaves, when it returns.\<close>

definition world_after :: "'w state outcome \<Rightarrow> 'w option" where
  "world_after r = (case r of Returns s \<Rightarrow> Some (world s) | Panics x \<Rightarrow> None | Blocked \<Rightarrow> None)"

section \<open>Properties of states\<close>

text \<open>The recorded length of a run queue is its length.\<close>

definition queue_ok :: "P \<Rightarrow> bool" where
  "queue_ok x = (P_NumG x = int (length (P_RunQ x)))"

text \<open>
  In how many places a processor is: the workers of \<open>s.Ms\<close> whose \<open>P\<close> field points
  to it, and its occurrences in the buffer of \<open>availPs\<close>.
\<close>

definition bound_count :: "'w state \<Rightarrow> pref \<Rightarrow> nat" where
  "bound_count s p = length (filter (\<lambda>m. M_P (Mheap s m) = Some p) (Ms s))"

definition pool_count :: "'w state \<Rightarrow> pref \<Rightarrow> nat" where
  "pool_count s p = (case availPs s of None \<Rightarrow> 0 | Some c \<Rightarrow> count_list (buf c) p)"

definition one_location :: "'w state \<Rightarrow> pref \<Rightarrow> bool" where
  "one_location s p = (bound_count s p + pool_count s p = 1)"

text \<open>The lines \<open>Starting\<close> and \<open>Finished\<close> among the printed ones.\<close>

fun is_start_finish :: "event \<Rightarrow> bool" where
  "is_start_finish (EvStarting a b c) = True"
| "is_start_finish (EvFinished a b c) = True"
| "is_start_finish ev = False"

text \<open>The two lines that the run of task \<open>t\<close> by worker \<open>m\<close> on processor \<open>p\<close> prints.\<close>

definition start_finish :: "'w state \<Rightarrow> mref \<Rightarrow> pref \<Rightarrow> gref \<Rightarrow> event list" where
  "start_finish s m p t =
     [EvStarting (M_ID (Mheap s m)) (P_ID (Pheap s p)) (G_ID (Gheap s t)),
      EvFinished (M_ID (Mheap s m)) (P_ID (Pheap s p)) (G_ID (Gheap s t))]"

text \<open>
  A task that \<open>Run\<close> can bring to its end under the senders of \<open>e\<close>: it has no
  channel, or its channel is open and a sender shows up.
\<close>

definition resumable :: "'w state \<Rightarrow> gref \<Rightarrow> env \<Rightarrow> bool" where
  "resumable s t e =
     (G_blockChan (Gheap s t) = None
      \<or> (G_blockChan (Gheap s t) = Some Open \<and> (\<exists>k. sender e k)))"

section \<open>A small configuration\<close>

text \<open>
  The zero values of the three structs, and \<open>&Scheduler{}\<close> with nothing allocated.
  Calling a nil \<open>Func\<close> panics.
\<close>

definition nilFunc :: "'w \<Rightarrow> string + 'w" where
  "nilFunc w = Inl ''invalid memory address or nil pointer dereference''"

definition zeroG :: "'w G" where
  "zeroG = \<lparr>G_ID = 0, G_Func = nilFunc, G_Status = [], G_blockChan = None\<rparr>"

definition zeroP :: P where
  "zeroP = \<lparr>P_ID = 0, P_RunQ = [], P_NumG = 0\<rparr>"

definition zeroM :: M where
  "zeroM = \<lparr>M_ID = 0, M_P = None, M_G = None, M_stop = None, M_parkTime = 0\<rparr>"

definition Scheduler0 :: "'w \<Rightarrow> 'w state" where
  "Scheduler0 w =
     \<lparr>Ps = [], Ms = [], nextGID = 0, globalQ = [], availPs = None,
      Gheap = (\<lambda>_. zeroG), Pheap = (\<lambda>_. zeroP), Mheap = (\<lambda>_. zeroM),
      fresh = 0, world = w, out = []\<rparr>"

text \<open>
  The setup of \<open>main\<close>: \<open>AddP(0)\<close>, \<open>AddM(0, 0)\<close>, \<open>AddP(1)\<close>, \<open>AddM(1, 1)\<close> on
  \<open>&Scheduler{}\<close>.
\<close>

definition main_setup :: "'w \<Rightarrow> 'w state outcome" where
  "main_setup w =
     (let (p0, s1) = AddP (Scheduler0 w) 0 in
      case AddM s1 0 0 of
        Panics x \<Rightarrow> Panics x
      | Blocked \<Rightarrow> Blocked
      | Returns (m0, s2) \<Rightarrow>
          (let (p1, s3) = AddP s2 1 in
           case AddM s3 1 1 of
             Panics x \<Rightarrow> Panics x
           | Blocked \<Rightarrow> Blocked
           | Returns (m1, s4) \<Rightarrow> Returns s4))"

text \<open>
  Work routines over a counter of the steps done: one that works, one that panics.
\<close>

definition sampleWork :: "nat \<Rightarrow> string + nat" where
  "sampleWork w = Inr (w + 3)"

definition badWork :: "nat \<Rightarrow> string + nat" where
  "badWork w = Inl ''boom''"

text \<open>
  One processor (address 0) with an empty queue, one worker (address 0) bound to
  it, and eight tasks made but not enqueued, with the ids 0 to 7: task 2 is blocking,
  task 3 panics, the others are plain.
\<close>

definition demoG :: "gref \<Rightarrow> nat G" where
  "demoG r =
     \<lparr>G_ID = int r,
      G_Func = (if r = 3 then badWork else sampleWork),
      G_Status = ''runnable'',
      G_blockChan = (if r = 2 then Some Open else None)\<rparr>"

definition demo :: "nat state" where
  "demo =
     \<lparr>Ps = [0], Ms = [0], nextGID = 8, globalQ = [],
      availPs = Some \<lparr>buf = [], cap = 1\<rparr>,
      Gheap = demoG,
      Pheap = (\<lambda>_. zeroP),
      Mheap = (\<lambda>_. zeroM)(0 := \<lparr>M_ID = 0, M_P = Some 0, M_G = None,
                                 M_stop = Some Open, M_parkTime = 0\<rparr>),
      fresh = 8, world = 0, out = []\<rparr>"

text \<open>
  \<open>demo\<close> in the middle of a park by its worker: the line \<open>Parking\<close> is printed
  and the send on \<open>availPs\<close> is done; \<open>m.P = nil\<close> is still to come.
\<close>

definition demo_published :: "nat state" where
  "demo_published = (emit (EvParking 0 0) demo)\<lparr>availPs := Some \<lparr>buf = [0], cap = 1\<rparr>\<rparr>"

text \<open>\<open>demo\<close> with the id counter at the largest \<open>int\<close>.\<close>

definition demo_last_id :: "nat state" where
  "demo_last_id = demo\<lparr>nextGID := 9223372036854775807\<rparr>"

text \<open>Clock readings and senders for the calls on \<open>demo\<close>.\<close>

definition tick :: "time \<Rightarrow> bool \<Rightarrow> env" where
  "tick t b = \<lparr>sinceNow = t, parkNow = t, sender = (\<lambda>k. b)\<rparr>"

section \<open>Task identities (\<open>NewG\<close>)\<close>

lemma wrap64_int64: "int64 (wrap64 n)"
proof -
  have "0 \<le> (n + 2 ^ 63) mod (2 ^ 64 :: int)" "(n + 2 ^ 63) mod (2 ^ 64 :: int) < 2 ^ 64"
    by simp_all
  then show ?thesis by (simp add: int64_def wrap64_def)
qed

lemma wrap64_same: "int64 n \<Longrightarrow> wrap64 n = n"
  by (simp add: int64_def wrap64_def)

lemma wrap64_cong:
  "(x + 2 ^ 63) mod (2 ^ 64 :: int) = (y + 2 ^ 63) mod 2 ^ 64 \<Longrightarrow> wrap64 x = wrap64 y"
  by (simp add: wrap64_def)

lemma wrap64_add: "wrap64 (wrap64 a + b) = wrap64 (a + b)"
proof (rule wrap64_cong)
  have e: "wrap64 a + b + 2 ^ 63 = (a + 2 ^ 63) mod 2 ^ 64 + b"
    by (simp add: wrap64_def)
  have "(wrap64 a + b + 2 ^ 63) mod (2 ^ 64 :: int) = ((a + 2 ^ 63) mod 2 ^ 64 + b) mod 2 ^ 64"
    by (simp only: e)
  also have "\<dots> = ((a + 2 ^ 63) + b) mod 2 ^ 64"
    by (rule mod_add_left_eq)
  also have "(a + 2 ^ 63) + b = a + b + 2 ^ 63"
    by simp
  finally show "(wrap64 a + b + 2 ^ 63) mod (2 ^ 64 :: int) = (a + b + 2 ^ 63) mod 2 ^ 64" .
qed

lemma wrap64_distinct:
  assumes "wrap64 a = wrap64 b" and "a < b" and "b - a < 2 ^ 64"
  shows False
proof -
  from assms(1) have "(a + 2 ^ 63) mod (2 ^ 64 :: int) = (b + 2 ^ 63) mod 2 ^ 64"
    by (simp add: wrap64_def)
  then have "(2 ^ 64 :: int) dvd (b + 2 ^ 63) - (a + 2 ^ 63)"
    by (metis mod_eq_dvd_iff)
  then have "(2 ^ 64 :: int) dvd b - a" by simp
  moreover have "0 < b - a" using assms(2) by simp
  ultimately have "(2 ^ 64 :: int) \<le> b - a" by (rule zdvd_imp_le)
  with assms(3) show False by simp
qed

lemma fst_NewG: "fst (NewG s f b) = fresh s"
  by (simp add: NewG_def Let_def)

lemma NewG_fields:
  "fresh (snd (NewG s f b)) = Suc (fresh s)"
  "nextGID (snd (NewG s f b)) = wrap64 (nextGID s + 1)"
  "Gheap (snd (NewG s f b)) =
     (Gheap s)(fresh s := \<lparr>G_ID = nextGID s, G_Func = f, G_Status = ''runnable'',
                             G_blockChan = (if b then Some Open else None)\<rparr>)"
  by (simp_all add: NewG_def Let_def)

lemma NewG_all_keeps:
  "r < fresh s \<Longrightarrow> Gheap (snd (NewG_all s reqs)) r = Gheap s r"
proof (induction reqs arbitrary: s)
  case Nil
  then show ?case by simp
next
  case (Cons fb rest)
  have "Gheap (snd (NewG_all (snd (NewG s (fst fb) (snd fb))) rest)) r
          = Gheap (snd (NewG s (fst fb) (snd fb))) r"
    using Cons.prems by (intro Cons.IH) (simp add: NewG_fields)
  then show ?case
    using Cons.prems by (simp add: split_beta NewG_fields Let_def)
qed

lemma NewG_all_refs:
  "fst (NewG_all s reqs) = [fresh s ..< fresh s + length reqs]"
proof (induction reqs arbitrary: s)
  case Nil
  then show ?case by simp
next
  case (Cons fb rest)
  have "[fresh s ..< fresh s + length (fb # rest)]
          = fresh s # [Suc (fresh s) ..< Suc (fresh s) + length rest]"
    by (subst upt_rec) simp
  then show ?case
    by (simp add: split_beta Let_def Cons.IH NewG_fields fst_NewG)
qed

lemma NewG_all_nth:
  "i < length reqs \<Longrightarrow> int64 (nextGID s) \<Longrightarrow>
     Gheap (snd (NewG_all s reqs)) (fresh s + i) =
       \<lparr>G_ID = wrap64 (nextGID s + int i), G_Func = fst (reqs ! i), G_Status = ''runnable'',
        G_blockChan = (if snd (reqs ! i) then Some Open else None)\<rparr>"
proof (induction reqs arbitrary: s i)
  case Nil
  then show ?case by simp
next
  case (Cons fb rest)
  let ?s1 = "snd (NewG s (fst fb) (snd fb))"
  show ?case
  proof (cases i)
    case 0
    have "Gheap (snd (NewG_all ?s1 rest)) (fresh s) = Gheap ?s1 (fresh s)"
      by (rule NewG_all_keeps) (simp add: NewG_fields)
    then show ?thesis
      using 0 Cons.prems(2) by (simp add: split_beta Let_def NewG_fields wrap64_same)
  next
    case (Suc j)
    then have j: "j < length rest" using Cons.prems by simp
    have r1: "int64 (nextGID ?s1)" by (simp add: NewG_fields wrap64_int64)
    have "wrap64 (wrap64 (nextGID s + 1) + int j) = wrap64 (nextGID s + 1 + int j)"
      by (rule wrap64_add)
    moreover have "nextGID s + 1 + int j = nextGID s + int (Suc j)" by simp
    ultimately have "wrap64 (wrap64 (nextGID s + 1) + int j) = wrap64 (nextGID s + int (Suc j))"
      by (simp only:)
    with Cons.IH [OF j r1] show ?thesis
      using Suc by (simp add: split_beta Let_def NewG_fields)
  qed
qed

text \<open>
  C7, as the claim states it: every task made would get an id larger than the ids
  given before. With the counter at 9223372036854775807, the largest \<open>int\<close>, the
  first of two calls gives that id and the second gives -9223372036854775808, which
  is smaller.
\<close>

theorem NewG_id_wraps:
  "fst (NewG_all demo_last_id [(sampleWork, False), (sampleWork, False)]) = [8, 9]
   \<and> G_ID (Gheap (snd (NewG_all demo_last_id [(sampleWork, False), (sampleWork, False)])) 8)
       = 9223372036854775807
   \<and> G_ID (Gheap (snd (NewG_all demo_last_id [(sampleWork, False), (sampleWork, False)])) 9)
       = - 9223372036854775808
   \<and> \<not> G_ID (Gheap (snd (NewG_all demo_last_id [(sampleWork, False), (sampleWork, False)])) 8)
         < G_ID (Gheap (snd (NewG_all demo_last_id [(sampleWork, False), (sampleWork, False)])) 9)"
  by (simp add: NewG_def demo_last_id_def demo_def Let_def wrap64_def)

text \<open>
  C7, amended. The tasks made by a run of \<open>NewG\<close> calls get the consecutive ids
  \<open>nextGID\<close>, \<open>nextGID + 1\<close>, ... of the machine, which wrap around after
  9223372036854775807. An id differs from all the ids given in the calls of the run
  before it, up to \<open>2 ^ 64\<close> calls; as long as the ids have not wrapped it is
  \<open>nextGID + i\<close> and larger than all those before it. Each task is returned with the
  status \<open>runnable\<close>, and it has a channel exactly when it was made with
  \<open>block = true\<close>.
\<close>

theorem NewG_ids:
  assumes "NewG_all s reqs = (rs, s')" and "i < length reqs" and "int64 (nextGID s)"
  shows "length rs = length reqs
       \<and> G_ID (Gheap s' (rs ! i)) = wrap64 (nextGID s + int i)
       \<and> (int i < 2 ^ 64 \<longrightarrow> (\<forall>j<i. G_ID (Gheap s' (rs ! j)) \<noteq> G_ID (Gheap s' (rs ! i))))
       \<and> (nextGID s + int i < 2 ^ 63 \<longrightarrow>
            G_ID (Gheap s' (rs ! i)) = nextGID s + int i
          \<and> (\<forall>j<i. G_ID (Gheap s' (rs ! j)) < G_ID (Gheap s' (rs ! i))))
       \<and> G_Status (Gheap s' (rs ! i)) = ''runnable''
       \<and> (G_blockChan (Gheap s' (rs ! i)) \<noteq> None) = snd (reqs ! i)"
proof -
  have rs: "rs = [fresh s ..< fresh s + length reqs]" and s': "s' = snd (NewG_all s reqs)"
    using assms(1) NewG_all_refs [of s reqs] by auto
  have at: "Gheap s' (rs ! k) =
       \<lparr>G_ID = wrap64 (nextGID s + int k), G_Func = fst (reqs ! k), G_Status = ''runnable'',
        G_blockChan = (if snd (reqs ! k) then Some Open else None)\<rparr>" if "k < length reqs" for k
    using that assms(3) by (simp add: rs s' NewG_all_nth)
  have ids: "G_ID (Gheap s' (rs ! k)) = wrap64 (nextGID s + int k)" if "k \<le> i" for k
    using that assms(2) by (simp add: at)
  have "length rs = length reqs" by (simp add: rs)
  moreover have "G_ID (Gheap s' (rs ! i)) = wrap64 (nextGID s + int i)" by (simp add: ids)
  moreover have "\<forall>j<i. G_ID (Gheap s' (rs ! j)) \<noteq> G_ID (Gheap s' (rs ! i))" if "int i < 2 ^ 64"
  proof (intro allI impI notI)
    fix j assume j: "j < i" and "G_ID (Gheap s' (rs ! j)) = G_ID (Gheap s' (rs ! i))"
    then have "wrap64 (nextGID s + int j) = wrap64 (nextGID s + int i)" by (simp add: ids)
    moreover have "nextGID s + int j < nextGID s + int i" using j by simp
    moreover have "(nextGID s + int i) - (nextGID s + int j) < 2 ^ 64" using that by simp
    ultimately show False by (rule wrap64_distinct)
  qed
  moreover have "G_ID (Gheap s' (rs ! i)) = nextGID s + int i
          \<and> (\<forall>j<i. G_ID (Gheap s' (rs ! j)) < G_ID (Gheap s' (rs ! i)))"
    if b: "nextGID s + int i < 2 ^ 63"
  proof -
    have "int64 (nextGID s + int k)" if "k \<le> i" for k
      using that b assms(3) by (simp add: int64_def)
    then have "G_ID (Gheap s' (rs ! k)) = nextGID s + int k" if "k \<le> i" for k
      using that by (simp add: ids wrap64_same)
    then show ?thesis by simp
  qed
  moreover have "G_Status (Gheap s' (rs ! i)) = ''runnable''" by (simp add: at assms(2))
  moreover have "(G_blockChan (Gheap s' (rs ! i)) \<noteq> None) = snd (reqs ! i)"
    by (simp add: at assms(2))
  ultimately show ?thesis by blast
qed

theorem NewG_ids_witness:
  "NewG_all demo [(sampleWork, False), (badWork, True)]
     = ([8, 9], snd (NewG_all demo [(sampleWork, False), (badWork, True)]))
   \<and> int64 (nextGID demo)
   \<and> nextGID demo + int 1 < 2 ^ 63
   \<and> G_ID (Gheap (snd (NewG_all demo [(sampleWork, False), (badWork, True)])) 8) = 8
   \<and> G_ID (Gheap (snd (NewG_all demo [(sampleWork, False), (badWork, True)])) 9) = 9
   \<and> G_Status (Gheap (snd (NewG_all demo [(sampleWork, False), (badWork, True)])) 9) = ''runnable''
   \<and> G_blockChan (Gheap (snd (NewG_all demo [(sampleWork, False), (badWork, True)])) 9) \<noteq> None"
proof -
  let ?reqs = "[(sampleWork, False), (badWork, True)]"
  have h: "NewG_all demo ?reqs = ([8, 9], snd (NewG_all demo ?reqs))"
    by (simp add: NewG_def demo_def Let_def)
  have i: "(1::nat) < length ?reqs" by simp
  have j: "(0::nat) < length ?reqs" by simp
  have r: "int64 (nextGID demo)" by (simp add: int64_def demo_def)
  have b: "nextGID demo + int 1 < 2 ^ 63" "nextGID demo + int 0 < 2 ^ 63" by (simp_all add: demo_def)
  show ?thesis
    using h r b NewG_ids [OF h i r] NewG_ids [OF h j r] by (simp add: demo_def)
qed

section \<open>Routing of \<open>Enqueue\<close>\<close>

lemma Enqueue_local:
  "\<not> P_NumG (Pheap s p) > 5 \<Longrightarrow>
     Pheap (Enqueue s p g) = (Pheap s)(p := (Pheap s p)\<lparr>P_RunQ := P_RunQ (Pheap s p) @ [g],
                                                   P_NumG := P_NumG (Pheap s p) + 1\<rparr>)
     \<and> globalQ (Enqueue s p g) = globalQ s"
  by (simp add: Enqueue_def upd_G_def upd_P_def)

lemma Enqueue_overflow:
  "P_NumG (Pheap s p) > 5 \<Longrightarrow>
     Pheap (Enqueue s p g) = Pheap s \<and> globalQ (Enqueue s p g) = globalQ s @ [g]"
  by (simp add: Enqueue_def emit_def)

lemma Enqueue_all_route:
  "queue_ok (Pheap s p) \<Longrightarrow>
     P_RunQ (Pheap (Enqueue_all s p gs) p)
       = P_RunQ (Pheap s p) @ take (6 - length (P_RunQ (Pheap s p))) gs
   \<and> globalQ (Enqueue_all s p gs)
       = globalQ s @ drop (6 - length (P_RunQ (Pheap s p))) gs
   \<and> queue_ok (Pheap (Enqueue_all s p gs) p)"
proof (induction gs arbitrary: s)
  case Nil
  then show ?case by simp
next
  case (Cons g gs)
  show ?case
  proof (cases "P_NumG (Pheap s p) > 5")
    case True
    then have len: "6 - length (P_RunQ (Pheap s p)) = 0"
      using Cons.prems by (simp add: queue_ok_def)
    have ok: "queue_ok (Pheap (Enqueue s p g) p)"
      using Cons.prems True by (simp add: Enqueue_overflow)
    from Cons.IH [OF ok] show ?thesis
      using True len by (simp add: Enqueue_overflow)
  next
    case False
    then have len: "length (P_RunQ (Pheap s p)) < 6"
      using Cons.prems by (simp add: queue_ok_def)
    have ok: "queue_ok (Pheap (Enqueue s p g) p)"
      using Cons.prems False by (simp add: Enqueue_local queue_ok_def)
    have "6 - length (P_RunQ (Pheap s p)) = Suc (6 - Suc (length (P_RunQ (Pheap s p))))"
      using len by simp
    with Cons.IH [OF ok] show ?thesis
      using False by (simp add: Enqueue_local)
  qed
qed

text \<open>
  C5, as the claim states it. The code redirects when the length exceeds 5, so the
  threshold of the first half is 5, and six tasks submitted to an empty processor
  would put the sixth on \<open>globalQ\<close>. They do not: all six are on the local queue
  and \<open>globalQ\<close> is empty. (With 6 for the threshold the first half fails instead:
  the seventh task finds the length 6 and is redirected.)
\<close>

theorem Enqueue_sixth_local:
  "globalQ (Enqueue_all demo 0 [0, 1, 2, 4, 5, 6]) = []
   \<and> P_RunQ (Pheap (Enqueue_all demo 0 [0, 1, 2, 4, 5, 6]) 0) = [0, 1, 2, 4, 5, 6]
   \<and> length (P_RunQ (Pheap (Enqueue_all demo 0 [0, 1, 2, 4, 5, 6]) 0)) = 6
   \<and> globalQ (Enqueue (Enqueue_all demo 0 [0, 1, 2, 4, 5, 6]) 0 7) = [7]"
  by (simp add: Enqueue_def demo_def zeroP_def upd_G_def upd_P_def emit_def)

text \<open>
  C5, amended. On a processor whose recorded length is right, \<open>Enqueue\<close> appends the
  task to the local queue when that queue holds at most 5 tasks and appends it to
  \<open>globalQ\<close> when it holds more than 5. So of the tasks submitted in a row to an
  empty processor the first six stay local and the seventh is the first one on
  \<open>globalQ\<close>.
\<close>

theorem Enqueue_routes:
  assumes "queue_ok (Pheap s p)"
  shows "(length (P_RunQ (Pheap s p)) \<le> 5 \<longrightarrow>
            P_RunQ (Pheap (Enqueue s p g) p) = P_RunQ (Pheap s p) @ [g]
          \<and> globalQ (Enqueue s p g) = globalQ s)
       \<and> (length (P_RunQ (Pheap s p)) > 5 \<longrightarrow>
            P_RunQ (Pheap (Enqueue s p g) p) = P_RunQ (Pheap s p)
          \<and> globalQ (Enqueue s p g) = globalQ s @ [g])
       \<and> (P_RunQ (Pheap s p) = [] \<longrightarrow>
            P_RunQ (Pheap (Enqueue_all s p gs) p) = take 6 gs
          \<and> globalQ (Enqueue_all s p gs) = globalQ s @ drop 6 gs)"
proof -
  have a: "length (P_RunQ (Pheap s p)) \<le> 5 \<Longrightarrow> \<not> P_NumG (Pheap s p) > 5"
    using assms by (simp add: queue_ok_def)
  have b: "length (P_RunQ (Pheap s p)) > 5 \<Longrightarrow> P_NumG (Pheap s p) > 5"
    using assms by (simp add: queue_ok_def)
  show ?thesis
    using Enqueue_all_route [OF assms, of gs] a b
    by (auto simp: Enqueue_local Enqueue_overflow)
qed

theorem Enqueue_routes_witness:
  "queue_ok (Pheap demo 0)
   \<and> P_RunQ (Pheap demo 0) = []
   \<and> P_RunQ (Pheap (Enqueue_all demo 0 [0, 1, 2, 3, 4, 5, 6]) 0) = [0, 1, 2, 3, 4, 5]
   \<and> globalQ (Enqueue_all demo 0 [0, 1, 2, 3, 4, 5, 6]) = [6]
   \<and> P_RunQ (Pheap (Enqueue demo 0 1) 0) = [1]"
proof -
  have ok: "queue_ok (Pheap demo 0)" by (simp add: queue_ok_def demo_def zeroP_def)
  have e: "P_RunQ (Pheap demo 0) = []" "globalQ demo = []" by (simp_all add: demo_def zeroP_def)
  show ?thesis
    using ok e Enqueue_routes [OF ok, of 1 "[0, 1, 2, 3, 4, 5, 6]"] by simp
qed

section \<open>What each step leaves alone\<close>

lemma upd_fields [simp]:
  "Pheap (upd_G g f s) = Pheap s" "Mheap (upd_G g f s) = Mheap s" "availPs (upd_G g f s) = availPs s"
  "Ms (upd_G g f s) = Ms s" "Ps (upd_G g f s) = Ps s" "globalQ (upd_G g f s) = globalQ s"
  "out (upd_G g f s) = out s" "world (upd_G g f s) = world s"
  "Gheap (upd_G g f s) = (Gheap s)(g := f (Gheap s g))"
  "Gheap (upd_P p h s) = Gheap s" "Mheap (upd_P p h s) = Mheap s" "availPs (upd_P p h s) = availPs s"
  "Ms (upd_P p h s) = Ms s" "Ps (upd_P p h s) = Ps s" "globalQ (upd_P p h s) = globalQ s"
  "out (upd_P p h s) = out s" "world (upd_P p h s) = world s"
  "Pheap (upd_P p h s) = (Pheap s)(p := h (Pheap s p))"
  "Gheap (upd_M m k s) = Gheap s" "Pheap (upd_M m k s) = Pheap s" "availPs (upd_M m k s) = availPs s"
  "Ms (upd_M m k s) = Ms s" "Ps (upd_M m k s) = Ps s" "globalQ (upd_M m k s) = globalQ s"
  "out (upd_M m k s) = out s" "world (upd_M m k s) = world s"
  "Mheap (upd_M m k s) = (Mheap s)(m := k (Mheap s m))"
  "Gheap (emit ev s) = Gheap s" "Pheap (emit ev s) = Pheap s" "Mheap (emit ev s) = Mheap s"
  "availPs (emit ev s) = availPs s" "Ms (emit ev s) = Ms s" "Ps (emit ev s) = Ps s"
  "globalQ (emit ev s) = globalQ s" "world (emit ev s) = world s"
  "out (emit ev s) = out s @ [ev]"
  by (simp_all add: upd_G_def upd_P_def upd_M_def emit_def)

lemma G_Run_frame:
  "G_Run sd g s = Returns s' \<Longrightarrow>
     Pheap s' = Pheap s \<and> Mheap s' = Mheap s \<and> availPs s' = availPs s
     \<and> Ms s' = Ms s \<and> Ps s' = Ps s \<and> globalQ s' = globalQ s"
  by (auto simp: G_Run_def Let_def split: sum.splits option.splits chan_state.splits)

lemma G_Run_done:
  "G_Run sd g s = Returns s' \<Longrightarrow> G_Status (Gheap s' g) = ''done''"
  by (auto simp: G_Run_def Let_def split: sum.splits option.splits chan_state.splits)

lemma send_availPs_frame:
  "send_availPs p s = Returns s' \<Longrightarrow>
     Pheap s' = Pheap s \<and> Mheap s' = Mheap s \<and> Gheap s' = Gheap s
     \<and> Ms s' = Ms s \<and> Ps s' = Ps s \<and> globalQ s' = globalQ s \<and> out s' = out s"
  by (auto simp: send_availPs_def split: option.splits if_splits)

lemma park_frame:
  "park m p e s = Returns s' \<Longrightarrow> Pheap s' = Pheap s \<and> Ms s' = Ms s \<and> Ps s' = Ps s"
  by (auto simp: park_def park_clear_def split: outcome.splits dest: send_availPs_frame)

lemma acquire_Pheap:
  "acquire m e s = Ret s1 \<Longrightarrow> Pheap s1 = Pheap s"
  "acquire m e s = Cont (p, s2) \<Longrightarrow> Pheap s2 = Pheap s"
  by (auto simp: acquire_def Let_def split: option.splits if_splits list.splits)

lemmas sched_defs = scheduleOnce_def acquire_def steal_or_park_def run_head_def pop_head_def
  after_run_def park_def
  park_clear_def send_availPs_def G_Run_def chan_recv_def Enqueue_def Let_def
  IsZero_def Since_def Millisecond_def

lemmas demo_defs = demo_def demoG_def zeroP_def zeroM_def tick_def sampleWork_def badWork_def

section \<open>The recorded queue length\<close>

lemma steal_queue_ok:
  "queue_ok (Pheap s q) \<Longrightarrow> steal_or_park m p e s = Cont s' \<Longrightarrow> queue_ok (Pheap s' q)"
  by (auto simp: steal_or_park_def Let_def queue_ok_def split: if_splits list.splits)

lemma steal_park_queue_ok:
  "queue_ok (Pheap s q) \<Longrightarrow> steal_or_park m p e s = Ret (Returns s') \<Longrightarrow> queue_ok (Pheap s' q)"
  by (auto simp: steal_or_park_def Let_def split: if_splits list.splits dest!: park_frame)

lemma run_head_queue_ok:
  "queue_ok (Pheap s q) \<Longrightarrow> run_head m p e s = Returns s' \<Longrightarrow> queue_ok (Pheap s' q)"
  by (auto simp: run_head_def pop_head_def after_run_def Let_def queue_ok_def
           split: list.splits outcome.splits if_splits dest!: G_Run_frame park_frame)

lemma scheduleOnce_queue_ok:
  assumes "queue_ok (Pheap s q)" and "scheduleOnce m e s = Returns s'"
  shows "queue_ok (Pheap s' q)"
proof (cases "acquire m e s")
  case (Ret s1)
  with assms show ?thesis by (simp add: scheduleOnce_def acquire_Pheap)
next
  case (Cont ps)
  obtain p s1 where ps: "ps = (p, s1)" by (cases ps)
  have ok1: "queue_ok (Pheap s1 q)" using assms(1) Cont ps by (simp add: acquire_Pheap)
  show ?thesis
  proof (cases "steal_or_park m p e s1")
    case (Ret r)
    with assms(2) Cont ps have "steal_or_park m p e s1 = Ret (Returns s')"
      by (simp add: scheduleOnce_def)
    with ok1 show ?thesis by (rule steal_park_queue_ok)
  next
    case c2: (Cont s2)
    with ok1 have ok2: "queue_ok (Pheap s2 q)" by (rule steal_queue_ok)
    from assms(2) Cont ps c2 have "run_head m p e s2 = Returns s'"
      by (simp add: scheduleOnce_def)
    with ok2 show ?thesis by (rule run_head_queue_ok)
  qed
qed

lemma AddP_queue_ok:
  "queue_ok (Pheap (snd (AddP s i)) (fst (AddP s i)))"
  "queue_ok (Pheap s q) \<Longrightarrow> queue_ok (Pheap (snd (AddP s i)) q)"
  by (simp_all add: AddP_def Let_def queue_ok_def)

lemma Enqueue_queue_ok:
  "queue_ok (Pheap s q) \<Longrightarrow> queue_ok (Pheap (Enqueue s p g) q)"
  by (auto simp: Enqueue_def queue_ok_def)

text \<open>
  C10. \<open>NumG\<close> is the length of \<open>RunQ\<close> on the processor that \<open>AddP\<close> makes, and
  for every processor \<open>q\<close> on which the two agree they still agree after \<open>AddP\<close>,
  after \<open>Enqueue\<close>, after the steal from \<open>globalQ\<close>, after the pop of the head with
  the run that follows it, and so after every call of \<open>scheduleOnce\<close> that returns.
\<close>

theorem NumG_is_length:
  assumes "queue_ok (Pheap s q)"
  shows "queue_ok (Pheap (snd (AddP s0 j)) (fst (AddP s0 j)))
       \<and> queue_ok (Pheap (snd (AddP s i)) q)
       \<and> queue_ok (Pheap (Enqueue s p g) q)
       \<and> (\<forall>s'. steal_or_park m p e s = Cont s' \<longrightarrow> queue_ok (Pheap s' q))
       \<and> (\<forall>s'. run_head m p e s = Returns s' \<longrightarrow> queue_ok (Pheap s' q))
       \<and> (\<forall>s'. scheduleOnce m e s = Returns s' \<longrightarrow> queue_ok (Pheap s' q))"
  using assms AddP_queue_ok(1) [of s0 j] AddP_queue_ok(2) [of s q i] Enqueue_queue_ok [of s q p g]
    steal_queue_ok [of s q m p e] run_head_queue_ok [of s q m p e]
    scheduleOnce_queue_ok [of s q m e]
  by blast

theorem NumG_is_length_witness:
  "queue_ok (Pheap demo 0)
   \<and> queue_ok (Pheap (Enqueue demo 0 0) 0)
   \<and> (\<exists>s'. scheduleOnce 0 (tick 5 True) (Enqueue demo 0 0) = Returns s'
           \<and> queue_ok (Pheap s' 0))"
proof -
  have ok: "queue_ok (Pheap demo 0)" by (simp add: queue_ok_def demo_defs)
  have ok1: "queue_ok (Pheap (Enqueue demo 0 0) 0)"
    using NumG_is_length [OF ok] by blast
  obtain s' where r: "scheduleOnce 0 (tick 5 True) (Enqueue demo 0 0) = Returns s'"
    by (simp add: sched_defs demo_defs)
  have "queue_ok (Pheap s' 0)"
    using NumG_is_length [OF ok1, of _ _ _ _ _ 0 "tick 5 True"] r by blast
  with ok ok1 r show ?thesis by blast
qed

section \<open>Running a task\<close>

lemma await_Some_sender:
  assumes "await sd i = Some j"
  shows "sd j"
proof (rule await.raw_induct [where P = "\<lambda>sd i j. sd j", OF _ assms])
  fix aw :: "(nat \<Rightarrow> bool) \<Rightarrow> nat \<Rightarrow> nat option" and sd i j
  assume "\<And>sd i j. aw sd i = Some j \<Longrightarrow> sd j"
    and "(if sd i then Some i else aw sd (Suc i)) = Some j"
  then show "sd j" by (auto split: if_splits)
qed

lemma await_never: "\<forall>k. \<not> sd k \<Longrightarrow> await sd i = None"
proof (cases "await sd i")
  case None
  then show ?thesis .
next
  case (Some j)
  then have "sd j" by (rule await_Some_sender)
  moreover assume "\<forall>k. \<not> sd k"
  ultimately show ?thesis by blast
qed

lemma await_arrives: "sd k \<Longrightarrow> i \<le> k \<Longrightarrow> \<exists>j. await sd i = Some j"
proof (induction "k - i" arbitrary: i)
  case 0
  then have "i = k" by simp
  with 0 show ?case by (subst await.simps) simp
next
  case (Suc d)
  show ?case
  proof (cases "sd i")
    case True
    then show ?thesis by (subst await.simps) simp
  next
    case False
    have "\<exists>j. await sd (Suc i) = Some j"
      using Suc by (intro Suc.hyps) simp_all
    with False show ?thesis by (subst await.simps) simp
  qed
qed

lemma chan_recv_Open_arrives: "sd k \<Longrightarrow> \<exists>j. chan_recv Open sd = Some j"
  using await_arrives [of sd k 0] by (simp add: chan_recv_def)

lemma chan_recv_Open_never: "\<forall>k. \<not> sd k \<Longrightarrow> chan_recv Open sd = None"
  by (simp add: chan_recv_def await_never)

lemma G_Run_plain:
  assumes "G_Func (Gheap s g) (world s) = Inr w" and "G_blockChan (Gheap s g) = None"
  shows "G_Run sd g s =
     Returns (emit EvGoroutineDone (upd_G g (\<lambda>x. x\<lparr>G_Status := ''done''\<rparr>) (s\<lparr>world := w\<rparr>)))"
  using assms by (simp add: G_Run_def)

lemma G_Run_blocking:
  assumes "G_Func (Gheap s g) (world s) = Inr w" and "G_blockChan (Gheap s g) = Some Open"
    and "sd k"
  shows "G_Run sd g s =
     Returns (emit EvGoroutineDone
       (upd_G g (\<lambda>x. x\<lparr>G_Status := ''done''\<rparr>)
         (upd_G g (\<lambda>x. x\<lparr>G_blockChan := Some Closed\<rparr>)
           (emit EvResumed (emit EvWaiting (s\<lparr>world := w\<rparr>))))))"
proof -
  obtain j where "chan_recv Open sd = Some j"
    using chan_recv_Open_arrives [of sd k] assms(3) by blast
  then show ?thesis using assms(1,2) by (simp add: G_Run_def)
qed

lemma G_Run_stuck:
  assumes "G_Func (Gheap s g) (world s) = Inr w" and "G_blockChan (Gheap s g) = Some Open"
    and "\<forall>k. \<not> sd k"
  shows "G_Run sd g s = Blocked"
  using assms by (simp add: G_Run_def chan_recv_Open_never)

lemma G_Run_panic:
  assumes "G_Func (Gheap s g) (world s) = Inl x"
  shows "G_Run sd g s = Panics x"
  using assms by (simp add: G_Run_def)

lemma scheduleOnce_bound:
  "M_P (Mheap s m) = Some p \<Longrightarrow> P_NumG (Pheap s p) \<noteq> 0 \<Longrightarrow>
     scheduleOnce m e s = run_head m p e s"
  by (simp add: scheduleOnce_def acquire_def steal_or_park_def)

lemma pop_head_Cons:
  "P_RunQ (Pheap s p) = g # rest \<Longrightarrow>
     \<exists>s1. pop_head m p s = Returns (g, s1)
        \<and> world s1 = world s
        \<and> G_Func (Gheap s1 g) = G_Func (Gheap s g)
        \<and> G_blockChan (Gheap s1 g) = G_blockChan (Gheap s g)"
  by (simp add: pop_head_def Let_def)


lemma run_head_panic:
  assumes "P_RunQ (Pheap s p) = g # rest" and "G_Func (Gheap s g) (world s) = Inl x"
  shows "run_head m p e s = Panics x"
proof -
  obtain s1 where "pop_head m p s = Returns (g, s1)" "world s1 = world s"
    "G_Func (Gheap s1 g) = G_Func (Gheap s g)"
    using pop_head_Cons [OF assms(1)] by blast
  then show ?thesis using assms(2) by (simp add: run_head_def G_Run_panic)
qed

lemma run_head_stuck:
  assumes "P_RunQ (Pheap s p) = g # rest" and "G_Func (Gheap s g) (world s) = Inr w"
    and "G_blockChan (Gheap s g) = Some Open" and "\<forall>k. \<not> sender e k"
  shows "run_head m p e s = Blocked"
proof -
  obtain s1 where "pop_head m p s = Returns (g, s1)" "world s1 = world s"
    "G_Func (Gheap s1 g) = G_Func (Gheap s g)"
    "G_blockChan (Gheap s1 g) = G_blockChan (Gheap s g)"
    using pop_head_Cons [OF assms(1)] by blast
  then show ?thesis using assms(2-) by (simp add: run_head_def G_Run_stuck)
qed

text \<open>
  C3, as the claim states it: a second \<open>Run\<close> on a task that is already done would
  be a no-op and would not run the work routine again. The work routine of task 0 adds
  3 to the counter: after one \<open>Run\<close> the counter is 3, after the second it is 6.
\<close>

theorem Run_twice_runs_twice:
  "world_after (G_Run (\<lambda>k. True) 0 demo) = Some 3
   \<and> world_after (Run_twice (\<lambda>k. True) 0 demo) = Some 6"
  by (simp add: Run_twice_def G_Run_def world_after_def demo_defs)

text \<open>
  C3, amended. For a task without a channel whose work routine returns, \<open>Run\<close>
  sets the status to \<open>done\<close> before it returns. \<open>Run\<close> does not look at the status:
  called again on the task that is already done, it runs the work routine again, on
  the world the first run left, and sets \<open>done\<close> again.
\<close>

theorem Run_completes_and_reruns:
  assumes "G_blockChan (Gheap s g) = None"
    and "G_Func (Gheap s g) (world s) = Inr w1"
    and "G_Func (Gheap s g) w1 = Inr w2"
  shows "\<exists>s1 s2. G_Run sd g s = Returns s1 \<and> G_Status (Gheap s1 g) = ''done'' \<and> world s1 = w1
           \<and> G_Run sd g s1 = Returns s2 \<and> G_Status (Gheap s2 g) = ''done'' \<and> world s2 = w2
           \<and> Run_twice sd g s = Returns s2"
proof -
  let ?s1 = "emit EvGoroutineDone (upd_G g (\<lambda>x. x\<lparr>G_Status := ''done''\<rparr>) (s\<lparr>world := w1\<rparr>))"
  let ?s2 = "emit EvGoroutineDone (upd_G g (\<lambda>x. x\<lparr>G_Status := ''done''\<rparr>) (?s1\<lparr>world := w2\<rparr>))"
  have r1: "G_Run sd g s = Returns ?s1" using assms(1,2) by (rule G_Run_plain [rotated])
  have "G_Func (Gheap ?s1 g) (world ?s1) = Inr w2" "G_blockChan (Gheap ?s1 g) = None"
    using assms by (simp_all add: emit_def)
  then have r2: "G_Run sd g ?s1 = Returns ?s2" by (rule G_Run_plain)
  have "G_Status (Gheap ?s1 g) = ''done''" "world ?s1 = w1"
       "G_Status (Gheap ?s2 g) = ''done''" "world ?s2 = w2"
    by (simp_all add: emit_def)
  moreover have "Run_twice sd g s = Returns ?s2" by (simp add: Run_twice_def r1 r2)
  ultimately show ?thesis using r1 r2 by blast
qed

theorem Run_completes_and_reruns_witness:
  "G_blockChan (Gheap demo 1) = None
   \<and> G_Func (Gheap demo 1) (world demo) = Inr 3
   \<and> G_Func (Gheap demo 1) 3 = Inr 6
   \<and> (\<exists>s2. Run_twice (\<lambda>k. False) 1 demo = Returns s2 \<and> world s2 = 6
            \<and> G_Status (Gheap s2 1) = ''done'')"
proof -
  have h: "G_blockChan (Gheap demo 1) = None" "G_Func (Gheap demo 1) (world demo) = Inr 3"
    "G_Func (Gheap demo 1) 3 = Inr 6"
    by (simp_all add: demo_defs)
  from Run_completes_and_reruns [OF h, of "\<lambda>k. False"] h show ?thesis by blast
qed

text \<open>
  C2, as the claim states it: a second unblock signal after the task has resumed would
  be a no-op or a reported error and would never crash. Task 2 is resumed by a first
  send and completes; the next send on its channel panics.
\<close>

theorem second_send_crashes:
  "Run_then_send (\<lambda>k. True) 2 demo = Panics ''send on closed channel''"
  by (simp add: Run_then_send_def send_blockChan_def G_Run_def chan_recv_def await.simps demo_defs)

text \<open>
  C2, amended. A blocking task whose work routine returns and for which a sender shows
  up is resumed once: \<open>Run\<close> returns with the status \<open>done\<close> and has closed the
  channel. A send on that channel after \<open>Run\<close> has returned panics with
  \<open>send on closed channel\<close>.
\<close>

theorem send_after_resume:
  assumes "G_blockChan (Gheap s g) = Some Open"
    and "G_Func (Gheap s g) (world s) = Inr w"
    and "sd k"
  shows "\<exists>s1. G_Run sd g s = Returns s1 \<and> G_Status (Gheap s1 g) = ''done''
           \<and> G_blockChan (Gheap s1 g) = Some Closed
           \<and> send_blockChan g s1 = Panics ''send on closed channel''
           \<and> Run_then_send sd g s = Panics ''send on closed channel''"
proof -
  let ?s1 = "emit EvGoroutineDone
       (upd_G g (\<lambda>x. x\<lparr>G_Status := ''done''\<rparr>)
         (upd_G g (\<lambda>x. x\<lparr>G_blockChan := Some Closed\<rparr>)
           (emit EvResumed (emit EvWaiting (s\<lparr>world := w\<rparr>)))))"
  have r: "G_Run sd g s = Returns ?s1" using assms(2,1,3) by (rule G_Run_blocking)
  have c: "G_blockChan (Gheap ?s1 g) = Some Closed" "G_Status (Gheap ?s1 g) = ''done''"
    by simp_all
  then have p: "send_blockChan g ?s1 = Panics ''send on closed channel''"
    by (simp add: send_blockChan_def)
  then have "Run_then_send sd g s = Panics ''send on closed channel''"
    by (simp add: Run_then_send_def r)
  with r c p show ?thesis by blast
qed

theorem send_after_resume_witness:
  "G_blockChan (Gheap demo 2) = Some Open
   \<and> G_Func (Gheap demo 2) (world demo) = Inr 3
   \<and> Run_then_send (\<lambda>k. k = 4) 2 demo = Panics ''send on closed channel''"
proof -
  have h: "G_blockChan (Gheap demo 2) = Some Open" "G_Func (Gheap demo 2) (world demo) = Inr 3"
    by (simp_all add: demo_defs)
  have k: "(\<lambda>k. k = 4) (4::nat)" by simp
  from send_after_resume [OF h, of "\<lambda>k. k = 4" 4] k h show ?thesis by blast
qed

text \<open>
  C8, as the claim states it: a work routine that panics would be caught and the worker
  loop would go on with the other tasks. With the panicking task 3 ahead of task 1 in
  the queue, the loop of the worker ends with the panic at its first iteration; with
  task 1 alone it is still running after the three iterations.
\<close>

theorem panic_stops_worker:
  "M_run 0 [tick 5 True, tick 6 True, tick 7 True] (Enqueue_all demo 0 [3, 1])
     = Some (Panics ''boom'')
   \<and> M_run 0 [tick 5 True, tick 6 True, tick 7 True] (Enqueue_all demo 0 [1]) = None"
  by (simp add: sched_defs demo_defs await.simps)

text \<open>
  C8, amended. Nothing catches a panic of a work routine: when the task at the head of
  the queue of a bound worker panics, the panic leaves \<open>G.Run\<close>, leaves
  \<open>scheduleOnce\<close> and ends the loop of \<open>M.run\<close>, whatever iterations were to
  follow.
\<close>

theorem panic_leaves_loop:
  assumes "M_stop (Mheap s m) \<noteq> Some Closed"
    and "M_P (Mheap s m) = Some p"
    and "P_RunQ (Pheap s p) = g # rest"
    and "P_NumG (Pheap s p) \<noteq> 0"
    and "G_Func (Gheap s g) (world s) = Inl x"
  shows "G_Run (sender e) g s = Panics x
       \<and> scheduleOnce m e s = Panics x
       \<and> M_run m (e # es) s = Some (Panics x)"
proof -
  have "scheduleOnce m e s = Panics x"
    using assms by (simp add: scheduleOnce_bound run_head_panic)
  then show ?thesis using assms(1,5) by (simp add: G_Run_panic)
qed

theorem panic_leaves_loop_witness:
  "M_stop (Mheap (Enqueue demo 0 3) 0) \<noteq> Some Closed
   \<and> M_P (Mheap (Enqueue demo 0 3) 0) = Some 0
   \<and> P_RunQ (Pheap (Enqueue demo 0 3) 0) = [3]
   \<and> P_NumG (Pheap (Enqueue demo 0 3) 0) \<noteq> 0
   \<and> scheduleOnce 0 (tick 9 False) (Enqueue demo 0 3) = Panics ''boom''
   \<and> M_run 0 [tick 9 False] (Enqueue demo 0 3) = Some (Panics ''boom'')"
proof -
  have h: "M_stop (Mheap (Enqueue demo 0 3) 0) \<noteq> Some Closed"
    "M_P (Mheap (Enqueue demo 0 3) 0) = Some 0"
    "P_RunQ (Pheap (Enqueue demo 0 3) 0) = [3]"
    "P_NumG (Pheap (Enqueue demo 0 3) 0) \<noteq> 0"
    "G_Func (Gheap (Enqueue demo 0 3) 3) (world (Enqueue demo 0 3)) = Inl ''boom''"
    by (simp_all add: Enqueue_def demo_defs)
  from panic_leaves_loop [OF h, of "tick 9 False" "[]"] h show ?thesis by blast
qed

text \<open>
  C9, as the claim states it: a worker whose blocked task is never signalled would wait
  a bounded time, report and go on. With no sender at any instant, the worker that
  runs the blocking task 2 stays blocked in its first iteration; the second iteration
  and task 1 are never reached.
\<close>

theorem no_signal_no_return:
  "M_run 0 [tick 5 False, tick 6 True] (Enqueue_all demo 0 [2, 1]) = Some Blocked"
  by (simp add: scheduleOnce_def acquire_def steal_or_park_def run_head_def pop_head_def
        G_Run_def Enqueue_def Let_def chan_recv_Open_never demo_defs)

text \<open>
  C9, amended. The receive in \<open>G.Run\<close> has no time limit: when the blocking task at
  the head of the queue of a bound worker is never sent a signal, \<open>G.Run\<close> does not
  return, and neither do \<open>scheduleOnce\<close> and the loop of \<open>M.run\<close>.
\<close>

theorem missing_signal_blocks:
  assumes "M_stop (Mheap s m) \<noteq> Some Closed"
    and "M_P (Mheap s m) = Some p"
    and "P_RunQ (Pheap s p) = g # rest"
    and "P_NumG (Pheap s p) \<noteq> 0"
    and "G_Func (Gheap s g) (world s) = Inr w"
    and "G_blockChan (Gheap s g) = Some Open"
    and "\<forall>k. \<not> sender e k"
  shows "G_Run (sender e) g s = Blocked
       \<and> scheduleOnce m e s = Blocked
       \<and> M_run m (e # es) s = Some Blocked"
proof -
  have "scheduleOnce m e s = Blocked"
    using assms by (simp add: scheduleOnce_bound run_head_stuck)
  then show ?thesis using assms(1,5,6,7) by (simp add: G_Run_stuck)
qed

theorem missing_signal_blocks_witness:
  "M_stop (Mheap (Enqueue demo 0 2) 0) \<noteq> Some Closed
   \<and> M_P (Mheap (Enqueue demo 0 2) 0) = Some 0
   \<and> P_RunQ (Pheap (Enqueue demo 0 2) 0) = [2]
   \<and> P_NumG (Pheap (Enqueue demo 0 2) 0) \<noteq> 0
   \<and> G_blockChan (Gheap (Enqueue demo 0 2) 2) = Some Open
   \<and> scheduleOnce 0 (tick 9 False) (Enqueue demo 0 2) = Blocked"
proof -
  have h: "M_stop (Mheap (Enqueue demo 0 2) 0) \<noteq> Some Closed"
    "M_P (Mheap (Enqueue demo 0 2) 0) = Some 0"
    "P_RunQ (Pheap (Enqueue demo 0 2) 0) = [2]"
    "P_NumG (Pheap (Enqueue demo 0 2) 0) \<noteq> 0"
    "G_Func (Gheap (Enqueue demo 0 2) 2) (world (Enqueue demo 0 2)) = Inr 3"
    "G_blockChan (Gheap (Enqueue demo 0 2) 2) = Some Open"
    "\<forall>k. \<not> sender (tick 9 False) k"
    by (simp_all add: Enqueue_def demo_defs)
  from missing_signal_blocks [OF h, of "[]"] h show ?thesis by blast
qed

section \<open>The cooldown after parking\<close>

lemma cooldown_skip:
  assumes "M_P (Mheap s m) = None" and "M_parkTime (Mheap s m) \<noteq> 0"
    and "sinceNow e - M_parkTime (Mheap s m) < 200 * Millisecond"
  shows "scheduleOnce m e s = Returns s"
  using assms by (simp add: scheduleOnce_def acquire_def IsZero_def Since_def)

lemma acquire_out:
  "acquire m e s = Ret s1 \<Longrightarrow> out s1 = out s"
  by (auto simp: acquire_def Let_def split: option.splits if_splits list.splits)

lemma park_result:
  "park m p e s = Returns s' \<Longrightarrow>
     M_P (Mheap s' m) = None \<and> M_parkTime (Mheap s' m) = parkNow e \<and> out s' = out s"
  by (auto simp: park_def park_clear_def split: outcome.splits dest: send_availPs_frame)

lemma after_run_out:
  "after_run m p e g s = Returns s' \<Longrightarrow>
     (\<exists>a b c. out s' = out s @ [EvFinished a b c]) \<or> (\<exists>a b c. out s' = out s @ [EvBlockedHandoff a b c])"
  by (auto simp: after_run_def Let_def split: if_splits dest!: park_result)

lemma run_head_out:
  "run_head m p e s = Returns s' \<Longrightarrow>
     \<exists>xs. (\<exists>a b c. out s' = xs @ [EvFinished a b c]) \<or> (\<exists>a b c. out s' = xs @ [EvBlockedHandoff a b c])"
  by (auto simp: run_head_def split: outcome.splits prod.splits dest!: after_run_out)

lemma steal_or_park_Ret:
  "steal_or_park m p e s = Ret r \<Longrightarrow>
     r = park m p e (emit (EvParking (M_ID (Mheap s m)) (P_ID (Pheap s p))) s)"
  by (auto simp: steal_or_park_def Let_def split: if_splits list.splits)

lemma parked_state:
  assumes "scheduleOnce m e s = Returns s'"
    and "out s' = out s @ evs @ [EvParking a b]"
  shows "M_P (Mheap s' m) = None \<and> M_parkTime (Mheap s' m) = parkNow e"
proof (cases "acquire m e s")
  case (Ret s1)
  with assms(1) have "s' = s1" by (simp add: scheduleOnce_def)
  with Ret have "out s' = out s" by (simp add: acquire_out)
  with assms(2) show ?thesis by simp
next
  case (Cont ps)
  obtain p s1 where ps: "ps = (p, s1)" by (cases ps)
  show ?thesis
  proof (cases "steal_or_park m p e s1")
    case (Ret r)
    with assms(1) Cont ps have "r = Returns s'" by (simp add: scheduleOnce_def)
    with Ret have "park m p e (emit (EvParking (M_ID (Mheap s1 m)) (P_ID (Pheap s1 p))) s1) = Returns s'"
      using steal_or_park_Ret by metis
    then show ?thesis using park_result by blast
  next
    case c2: (Cont s2)
    with assms(1) Cont ps have "run_head m p e s2 = Returns s'" by (simp add: scheduleOnce_def)
    from run_head_out [OF this] assms(2) show ?thesis by auto
  qed
qed

lemma scheduleTimes_cooldown:
  assumes "M_P (Mheap s m) = None" and "M_parkTime (Mheap s m) \<noteq> 0"
    and "\<forall>e \<in> set es. sinceNow e - M_parkTime (Mheap s m) < 200 * Millisecond"
  shows "scheduleTimes m es s = Returns s"
  using assms by (induction es) (simp_all add: cooldown_skip)

text \<open>
  C4. A call of \<open>scheduleOnce\<close> that ends by printing \<open>Parking\<close> leaves the worker
  without a processor, and every later call that reads the clock less than 200 ms
  after the park returns at once and changes nothing: the worker takes no processor
  from \<open>availPs\<close>, whatever \<open>availPs\<close> holds. (\<open>time.Now()\<close> is never the zero time.)
  With one processor and one worker, the processor the worker has just parked stays
  in \<open>availPs\<close> through the window.
\<close>

theorem cooldown_holds_worker:
  assumes "scheduleOnce m e s = Returns s'"
    and "out s' = out s @ evs @ [EvParking a b]"
    and "parkNow e \<noteq> 0"
    and "\<forall>e' \<in> set es. sinceNow e' - parkNow e < 200 * Millisecond"
  shows "M_P (Mheap s' m) = None \<and> scheduleTimes m es s' = Returns s'"
proof -
  have p: "M_P (Mheap s' m) = None" "M_parkTime (Mheap s' m) = parkNow e"
    using parked_state [OF assms(1,2)] by simp_all
  with assms(3,4) have "scheduleTimes m es s' = Returns s'"
    by (intro scheduleTimes_cooldown) simp_all
  with p show ?thesis by simp
qed

theorem cooldown_holds_worker_witness:
  "(\<exists>s'. scheduleOnce 0 (tick 1000 True) demo = Returns s'
        \<and> out s' = out demo @ [] @ [EvParking 0 0]
        \<and> availPs s' = Some \<lparr>buf = [0], cap = 1\<rparr>
        \<and> M_P (Mheap s' 0) = None
        \<and> scheduleTimes 0 [tick 100001000 True, tick 200000999 True] s' = Returns s')"
proof -
  obtain s' where r: "scheduleOnce 0 (tick 1000 True) demo = Returns s'"
    and o: "out s' = out demo @ [] @ [EvParking 0 0]"
    and a: "availPs s' = Some \<lparr>buf = [0], cap = 1\<rparr>"
    by (simp add: sched_defs demo_defs)
  have t: "parkNow (tick 1000 True) \<noteq> 0"
    "\<forall>e' \<in> set [tick 100001000 True, tick 200000999 True].
        sinceNow e' - parkNow (tick 1000 True) < 200 * Millisecond"
    by (simp_all add: tick_def Millisecond_def)
  from cooldown_holds_worker [OF r o t] r o a show ?thesis by blast
qed

section \<open>Order of execution\<close>

lemma Enqueue_frame:
  "Mheap (Enqueue s p g) = Mheap s"
  "world (Enqueue s p g) = world s"
  "G_ID (Gheap (Enqueue s p g) r) = G_ID (Gheap s r)"
  "G_Func (Gheap (Enqueue s p g) r) = G_Func (Gheap s r)"
  "G_blockChan (Gheap (Enqueue s p g) r) = G_blockChan (Gheap s r)"
  "P_ID (Pheap (Enqueue s p g) q) = P_ID (Pheap s q)"
  by (simp_all add: Enqueue_def)

lemma Enqueue_out: "\<not> P_NumG (Pheap s p) > 5 \<Longrightarrow> out (Enqueue s p g) = out s"
  by (simp add: Enqueue_def)

lemma Enqueue_three:
  assumes "P_RunQ (Pheap s p) = []" and "P_NumG (Pheap s p) = 0"
  shows "P_RunQ (Pheap (Enqueue_all s p [t1, t2, t3]) p) = [t1, t2, t3]"
    and "P_NumG (Pheap (Enqueue_all s p [t1, t2, t3]) p) = 3"
    and "out (Enqueue_all s p [t1, t2, t3]) = out s"
  using assms by (simp_all add: Enqueue_def)

lemma Enqueue_all_frame:
  "Mheap (Enqueue_all s p gs) = Mheap s"
  "world (Enqueue_all s p gs) = world s"
  "G_ID (Gheap (Enqueue_all s p gs) r) = G_ID (Gheap s r)"
  "G_Func (Gheap (Enqueue_all s p gs) r) = G_Func (Gheap s r)"
  "G_blockChan (Gheap (Enqueue_all s p gs) r) = G_blockChan (Gheap s r)"
  "P_ID (Pheap (Enqueue_all s p gs) q) = P_ID (Pheap s q)"
  by (induction gs arbitrary: s; simp add: Enqueue_frame)+

lemma G_Run_completes:
  assumes "G_Func (Gheap s g) (world s) = Inr w"
    and "G_blockChan (Gheap s g) = None \<or> (G_blockChan (Gheap s g) = Some Open \<and> (\<exists>k. sd k))"
  shows "\<exists>s'. G_Run sd g s = Returns s'
      \<and> Mheap s' = Mheap s \<and> Pheap s' = Pheap s \<and> world s' = w
      \<and> G_Status (Gheap s' g) = ''done''
      \<and> (\<forall>r. G_ID (Gheap s' r) = G_ID (Gheap s r) \<and> G_Func (Gheap s' r) = G_Func (Gheap s r))
      \<and> (\<forall>r. r \<noteq> g \<longrightarrow> Gheap s' r = Gheap s r)
      \<and> filter is_start_finish (out s') = filter is_start_finish (out s)"
proof (cases "G_blockChan (Gheap s g)")
  case None
  show ?thesis
    by (simp add: G_Run_plain [OF assms(1) None])
next
  case (Some c)
  with assms(2) obtain k where o: "G_blockChan (Gheap s g) = Some Open" and k: "sd k" by auto
  have "G_Run sd g s =
     Returns (emit EvGoroutineDone
       (upd_G g (\<lambda>x. x\<lparr>G_Status := ''done''\<rparr>)
         (upd_G g (\<lambda>x. x\<lparr>G_blockChan := Some Closed\<rparr>)
           (emit EvResumed (emit EvWaiting (s\<lparr>world := w\<rparr>))))))"
    using assms(1) o k by (rule G_Run_blocking)
  then show ?thesis by simp
qed

lemma step_runs_head:
  assumes "M_P (Mheap s m) = Some p"
    and "P_RunQ (Pheap s p) = g # rest"
    and "P_NumG (Pheap s p) = 1 + int (length rest)"
    and "G_Func (Gheap s g) (world s) = Inr w"
    and "G_blockChan (Gheap s g) = None
          \<or> (G_blockChan (Gheap s g) = Some Open \<and> (\<exists>k. sender e k))"
  shows "\<exists>s'. scheduleOnce m e s = Returns s'
      \<and> M_P (Mheap s' m) = Some p \<and> M_ID (Mheap s' m) = M_ID (Mheap s m)
      \<and> P_RunQ (Pheap s' p) = rest \<and> P_NumG (Pheap s' p) = int (length rest)
      \<and> P_ID (Pheap s' p) = P_ID (Pheap s p)
      \<and> world s' = w
      \<and> G_Status (Gheap s' g) = ''done''
      \<and> (\<forall>r. G_ID (Gheap s' r) = G_ID (Gheap s r) \<and> G_Func (Gheap s' r) = G_Func (Gheap s r))
      \<and> (\<forall>r. r \<noteq> g \<longrightarrow> Gheap s' r = Gheap s r)
      \<and> filter is_start_finish (out s')
          = filter is_start_finish (out s)
            @ [EvStarting (M_ID (Mheap s m)) (P_ID (Pheap s p)) (G_ID (Gheap s g)),
               EvFinished (M_ID (Mheap s m)) (P_ID (Pheap s p)) (G_ID (Gheap s g))]"
proof -
  let ?s1 = "emit (EvStarting (M_ID (Mheap s m)) (P_ID (Pheap s p)) (G_ID (Gheap s g)))
     (upd_G g (\<lambda>x. x\<lparr>G_Status := ''running''\<rparr>)
       (upd_M m (\<lambda>x. x\<lparr>M_G := Some g\<rparr>)
         (upd_P p (\<lambda>x. x\<lparr>P_RunQ := rest, P_NumG := P_NumG x - 1\<rparr>) s)))"
  have pop: "pop_head m p s = Returns (g, ?s1)"
    using assms(2) by (simp add: pop_head_def)
  have f1: "G_Func (Gheap ?s1 g) (world ?s1) = Inr w" using assms(4) by simp
  have c1: "G_blockChan (Gheap ?s1 g) = None
          \<or> (G_blockChan (Gheap ?s1 g) = Some Open \<and> (\<exists>k. sender e k))"
    using assms(5) by simp
  from G_Run_completes [OF f1 c1] obtain s2 where
    run: "G_Run (sender e) g ?s1 = Returns s2"
    and fr: "Mheap s2 = Mheap ?s1" "Pheap s2 = Pheap ?s1" "world s2 = w"
      "G_Status (Gheap s2 g) = ''done''"
      "\<forall>r. G_ID (Gheap s2 r) = G_ID (Gheap ?s1 r) \<and> G_Func (Gheap s2 r) = G_Func (Gheap ?s1 r)"
      "\<forall>r. r \<noteq> g \<longrightarrow> Gheap s2 r = Gheap ?s1 r"
      "filter is_start_finish (out s2) = filter is_start_finish (out ?s1)"
    by blast
  let ?s3 = "emit (EvFinished (M_ID (Mheap s m)) (P_ID (Pheap s p)) (G_ID (Gheap s g)))
               (upd_M m (\<lambda>x. x\<lparr>M_G := None\<rparr>) s2)"
  have gid: "G_ID (Gheap s2 g) = G_ID (Gheap s g)" using fr(5) by simp
  have "after_run m p e g s2 = Returns ?s3"
    using fr(1,2,4) gid by (simp add: after_run_def Let_def)
  with pop run have r: "run_head m p e s = Returns ?s3" by (simp add: run_head_def)
  have ne: "P_NumG (Pheap s p) \<noteq> 0" using assms(3) by simp
  have sch: "scheduleOnce m e s = Returns ?s3"
    using scheduleOnce_bound [OF assms(1) ne] r by simp
  have "M_P (Mheap ?s3 m) = Some p" "M_ID (Mheap ?s3 m) = M_ID (Mheap s m)"
    "P_RunQ (Pheap ?s3 p) = rest" "P_NumG (Pheap ?s3 p) = int (length rest)"
    "P_ID (Pheap ?s3 p) = P_ID (Pheap s p)" "world ?s3 = w"
    "G_Status (Gheap ?s3 g) = ''done''"
    using assms(1,3) fr(1,2,3,4) by simp_all
  moreover have "\<forall>r. G_ID (Gheap ?s3 r) = G_ID (Gheap s r) \<and> G_Func (Gheap ?s3 r) = G_Func (Gheap s r)"
    using fr(5) by simp
  moreover have "\<forall>r. r \<noteq> g \<longrightarrow> Gheap ?s3 r = Gheap s r"
    using fr(6) by simp
  moreover have "filter is_start_finish (out ?s3)
          = filter is_start_finish (out s)
            @ [EvStarting (M_ID (Mheap s m)) (P_ID (Pheap s p)) (G_ID (Gheap s g)),
               EvFinished (M_ID (Mheap s m)) (P_ID (Pheap s p)) (G_ID (Gheap s g))]"
    using fr(7) by simp
  ultimately show ?thesis using sch by blast
qed

lemma drain_queue:
  assumes "M_P (Mheap s m) = Some p"
    and "P_RunQ (Pheap s p) = ts" and "P_NumG (Pheap s p) = int (length ts)"
    and "distinct ts"
    and "\<forall>t \<in> set ts. \<forall>w. \<exists>w'. G_Func (Gheap s t) w = Inr w'"
    and "list_all2 (resumable s) ts es"
  shows "\<exists>s'. scheduleTimes m es s = Returns s'
      \<and> filter is_start_finish (out s')
          = filter is_start_finish (out s) @ concat (map (start_finish s m p) ts)
      \<and> (\<forall>t \<in> set ts. G_Status (Gheap s' t) = ''done'')
      \<and> (\<forall>r. r \<notin> set ts \<longrightarrow> Gheap s' r = Gheap s r)
      \<and> P_RunQ (Pheap s' p) = []"
  using assms
proof (induction ts arbitrary: s es)
  case Nil
  then show ?case by simp
next
  case (Cons t ts)
  from Cons.prems(6) obtain e es' where es: "es = e # es'"
    and re: "resumable s t e" and rest: "list_all2 (resumable s) ts es'"
    by (auto simp: list_all2_Cons1)
  from Cons.prems(5) have "\<exists>w. G_Func (Gheap s t) (world s) = Inr w" by simp
  then obtain w where w: "G_Func (Gheap s t) (world s) = Inr w" ..
  have n: "P_NumG (Pheap s p) = 1 + int (length ts)" using Cons.prems(3) by simp
  from step_runs_head [OF Cons.prems(1,2) n w re [unfolded resumable_def]]
  obtain s1 where r1: "scheduleOnce m e s = Returns s1"
    and m1: "M_P (Mheap s1 m) = Some p" "M_ID (Mheap s1 m) = M_ID (Mheap s m)"
    and p1: "P_RunQ (Pheap s1 p) = ts" "P_NumG (Pheap s1 p) = int (length ts)"
      "P_ID (Pheap s1 p) = P_ID (Pheap s p)"
    and d1: "G_Status (Gheap s1 t) = ''done''"
    and g1: "\<forall>r. G_ID (Gheap s1 r) = G_ID (Gheap s r) \<and> G_Func (Gheap s1 r) = G_Func (Gheap s r)"
    and k1: "\<forall>r. r \<noteq> t \<longrightarrow> Gheap s1 r = Gheap s r"
    and o1: "filter is_start_finish (out s1)
               = filter is_start_finish (out s) @ start_finish s m p t"
    unfolding start_finish_def by blast
  have nt: "t \<notin> set ts" and dts: "distinct ts" using Cons.prems(4) by simp_all
  have fs: "\<forall>t' \<in> set ts. \<forall>w. \<exists>w'. G_Func (Gheap s1 t') w = Inr w'"
    using Cons.prems(5) g1 by simp
  have same: "resumable s1 t' = resumable s t'" if "t' \<in> set ts" for t'
    using that nt k1 by (auto simp: resumable_def fun_eq_iff)
  have rs: "list_all2 (resumable s1) ts es'"
    using rest same by (auto simp: list_all2_conv_all_nth)
  from Cons.IH [OF m1(1) p1(1,2) dts fs rs]
  obtain s' where r2: "scheduleTimes m es' s1 = Returns s'"
    and o2: "filter is_start_finish (out s')
          = filter is_start_finish (out s1) @ concat (map (start_finish s1 m p) ts)"
    and d2: "\<forall>t \<in> set ts. G_Status (Gheap s' t) = ''done''"
    and k2: "\<forall>r. r \<notin> set ts \<longrightarrow> Gheap s' r = Gheap s1 r"
    and q2: "P_RunQ (Pheap s' p) = []"
    by blast
  have sf: "start_finish s1 m p = start_finish s m p"
    using m1(2) p1(3) g1 by (simp add: start_finish_def fun_eq_iff)
  have "scheduleTimes m es s = Returns s'" using es r1 r2 by simp
  moreover have "filter is_start_finish (out s')
          = filter is_start_finish (out s) @ concat (map (start_finish s m p) (t # ts))"
    using o1 o2 sf by simp
  moreover have "\<forall>t' \<in> set (t # ts). G_Status (Gheap s' t') = ''done''"
    using d1 d2 k2 nt by simp
  moreover have "\<forall>r. r \<notin> set (t # ts) \<longrightarrow> Gheap s' r = Gheap s r"
    using k1 k2 by simp
  ultimately show ?case using q2 by blast
qed

text \<open>
  C6. Three different tasks are enqueued in the order \<open>t1\<close>, \<open>t2\<close>, \<open>t3\<close> on an
  empty processor, and the one worker bound to it makes three calls of
  \<open>scheduleOnce\<close>. When the work routines do not panic and every blocking task is
  sent its signal, the three calls return and the lines \<open>Starting\<close> and
  \<open>Finished\<close> they print are those of \<open>t1\<close>, then \<open>t2\<close>, then \<open>t3\<close>: each
  task is popped from the head, started and finished before the next one is popped.
  The local queue is never empty at the test, so nothing is taken from \<open>globalQ\<close>.
\<close>

theorem fifo_order:
  assumes "M_P (Mheap s m) = Some p"
    and "P_RunQ (Pheap s p) = []" and "P_NumG (Pheap s p) = 0"
    and "distinct [t1, t2, t3]"
    and "\<forall>t \<in> set [t1, t2, t3]. \<forall>w. \<exists>w'. G_Func (Gheap s t) w = Inr w'"
    and "resumable s t1 e1" and "resumable s t2 e2" and "resumable s t3 e3"
  shows "\<exists>s'. scheduleTimes m [e1, e2, e3] (Enqueue_all s p [t1, t2, t3]) = Returns s'
      \<and> filter is_start_finish (out s')
          = filter is_start_finish (out s)
            @ start_finish s m p t1 @ start_finish s m p t2 @ start_finish s m p t3
      \<and> G_Status (Gheap s' t1) = ''done''
      \<and> G_Status (Gheap s' t2) = ''done''
      \<and> G_Status (Gheap s' t3) = ''done''
      \<and> P_RunQ (Pheap s' p) = []"
proof -
  let ?s0 = "Enqueue_all s p [t1, t2, t3]"
  note q0 = Enqueue_three [OF assms(2,3), of t1 t2 t3]
  note fr0 = Enqueue_all_frame [of s p "[t1, t2, t3]"]
  have b0: "M_P (Mheap ?s0 m) = Some p" using assms(1) by (simp only: fr0)
  have n0: "P_NumG (Pheap ?s0 p) = int (length [t1, t2, t3])" using q0(2) by simp
  have f0: "\<forall>t \<in> set [t1, t2, t3]. \<forall>w. \<exists>w'. G_Func (Gheap ?s0 t) w = Inr w'"
    using assms(5) by (simp only: fr0)
  have r0: "resumable ?s0 = resumable s"
    by (simp add: resumable_def fun_eq_iff Enqueue_frame)
  have l0: "list_all2 (resumable ?s0) [t1, t2, t3] [e1, e2, e3]"
    unfolding r0 using assms(6,7,8) by simp
  have sf: "start_finish ?s0 m p = start_finish s m p"
    by (simp add: start_finish_def fun_eq_iff Enqueue_frame)
  from drain_queue [OF b0 q0(1) n0 assms(4) f0 l0]
  obtain s' where "scheduleTimes m [e1, e2, e3] ?s0 = Returns s'"
    and "filter is_start_finish (out s')
          = filter is_start_finish (out ?s0) @ concat (map (start_finish ?s0 m p) [t1, t2, t3])"
    and "\<forall>t \<in> set [t1, t2, t3]. G_Status (Gheap s' t) = ''done''"
    and "P_RunQ (Pheap s' p) = []"
    by blast
  then show ?thesis by (simp add: sf q0(3) del: Enqueue_all.simps)
qed

theorem fifo_order_witness:
  "M_P (Mheap demo 0) = Some 0
   \<and> P_RunQ (Pheap demo 0) = []
   \<and> resumable demo 2 (tick 7 True)
   \<and> (\<exists>s'. scheduleTimes 0 [tick 5 False, tick 6 False, tick 7 True]
              (Enqueue_all demo 0 [0, 1, 2]) = Returns s'
          \<and> out s' = [EvStarting 0 0 0, EvGoroutineDone, EvFinished 0 0 0,
                       EvStarting 0 0 1, EvGoroutineDone, EvFinished 0 0 1,
                       EvStarting 0 0 2, EvWaiting, EvResumed, EvGoroutineDone,
                       EvFinished 0 0 2]
          \<and> filter is_start_finish (out s')
               = [EvStarting 0 0 0, EvFinished 0 0 0, EvStarting 0 0 1, EvFinished 0 0 1,
                  EvStarting 0 0 2, EvFinished 0 0 2])"
proof -
  have h: "M_P (Mheap demo 0) = Some 0" "P_RunQ (Pheap demo 0) = []" "P_NumG (Pheap demo 0) = 0"
    "distinct [0::nat, 1, 2]"
    "\<forall>t \<in> set [0::nat, 1, 2]. \<forall>w. \<exists>w'. G_Func (Gheap demo t) w = Inr w'"
    "resumable demo 0 (tick 5 False)" "resumable demo 1 (tick 6 False)"
    "resumable demo 2 (tick 7 True)"
    by (simp_all add: demo_defs resumable_def)
  have sf: "start_finish demo 0 0 0 = [EvStarting 0 0 0, EvFinished 0 0 0]"
    "start_finish demo 0 0 1 = [EvStarting 0 0 1, EvFinished 0 0 1]"
    "start_finish demo 0 0 2 = [EvStarting 0 0 2, EvFinished 0 0 2]"
    "out demo = []"
    by (simp_all add: start_finish_def demo_defs)
  obtain s' where r: "scheduleTimes 0 [tick 5 False, tick 6 False, tick 7 True]
              (Enqueue_all demo 0 [0, 1, 2]) = Returns s'"
    and o: "out s' = [EvStarting 0 0 0, EvGoroutineDone, EvFinished 0 0 0,
                       EvStarting 0 0 1, EvGoroutineDone, EvFinished 0 0 1,
                       EvStarting 0 0 2, EvWaiting, EvResumed, EvGoroutineDone,
                       EvFinished 0 0 2]"
    by (simp add: sched_defs demo_defs await.simps)
  have "filter is_start_finish (out s')
          = filter is_start_finish (out demo)
            @ start_finish demo 0 0 0 @ start_finish demo 0 0 1 @ start_finish demo 0 0 2"
    using fifo_order [OF h] r by auto
  then have "filter is_start_finish (out s')
               = [EvStarting 0 0 0, EvFinished 0 0 0, EvStarting 0 0 1, EvFinished 0 0 1,
                  EvStarting 0 0 2, EvFinished 0 0 2]"
    unfolding sf by simp
  with h r o show ?thesis by blast
qed

section \<open>Where a processor is\<close>

text \<open>
  After the setup of \<open>main\<close> each of the two processors is bound to one worker and
  has an empty queue of recorded length 0; the pool is empty, with the capacity 1 that
  the first \<open>AddM\<close> gave it.
\<close>

lemma main_setup_places:
  "\<exists>s. main_setup w = Returns s
      \<and> Ps s = [0, 2] \<and> Ms s = [1, 3]
      \<and> availPs s = Some \<lparr>buf = [], cap = 1\<rparr>
      \<and> one_location s 0 \<and> one_location s 2
      \<and> queue_ok (Pheap s 0) \<and> queue_ok (Pheap s 2)"
  by (simp add: main_setup_def Scheduler0_def AddP_def AddM_def Let_def
        one_location_def bound_count_def pool_count_def queue_ok_def zeroM_def)

lemma count_upd:
  "distinct xs \<Longrightarrow> m \<in> set xs \<Longrightarrow>
     length (filter (\<lambda>x. (h(m := v)) x = k) xs) + (if h m = k then 1 else 0)
       = length (filter (\<lambda>x. h x = k) xs) + (if v = k then 1 else 0)"
proof (induction xs)
  case Nil
  then show ?case by simp
next
  case (Cons a xs)
  show ?case
  proof (cases "a = m")
    case True
    then have "m \<notin> set xs" using Cons.prems by simp
    then have "filter (\<lambda>x. (h(m := v)) x = k) xs = filter (\<lambda>x. h x = k) xs"
      by (intro filter_cong) auto
    then show ?thesis using True by simp
  next
    case False
    then show ?thesis using Cons by simp
  qed
qed

lemma bound_count_upd_M:
  assumes "distinct (Ms s)" and "m \<in> set (Ms s)"
  shows "bound_count (upd_M m f s) q + (if M_P (Mheap s m) = Some q then 1 else 0)
           = bound_count s q + (if M_P (f (Mheap s m)) = Some q then 1 else 0)"
proof -
  have "(\<lambda>x. M_P (((Mheap s)(m := f (Mheap s m))) x) = Some q)
          = (\<lambda>x. ((M_P \<circ> Mheap s)(m := M_P (f (Mheap s m)))) x = Some q)"
    by (auto simp: fun_eq_iff)
  then show ?thesis
    using count_upd [OF assms, of "M_P \<circ> Mheap s" "M_P (f (Mheap s m))" "Some q"]
    by (simp add: bound_count_def)
qed

lemma bound_count_eq:
  assumes "Ms s' = Ms s" and "\<forall>x. M_P (Mheap s' x) = M_P (Mheap s x)"
  shows "bound_count s' q = bound_count s q"
  using assms by (simp add: bound_count_def)

lemma places_eq:
  assumes "Ms s' = Ms s" and "availPs s' = availPs s"
    and "\<forall>x. M_P (Mheap s' x) = M_P (Mheap s x)"
  shows "one_location s' q = one_location s q"
  using assms by (simp add: one_location_def bound_count_def pool_count_def)

lemma acquire_Ret_places:
  "acquire m e s = Ret s1 \<Longrightarrow>
     Ms s1 = Ms s \<and> availPs s1 = availPs s \<and> (\<forall>x. M_P (Mheap s1 x) = M_P (Mheap s x))"
  by (auto simp: acquire_def Let_def split: option.splits if_splits list.splits)

lemma acquire_Cont_location:
  assumes "distinct (Ms s)" and "m \<in> set (Ms s)" and "one_location s q"
    and "acquire m e s = Cont (p, s1)"
  shows "one_location s1 q \<and> Ms s1 = Ms s \<and> M_P (Mheap s1 m) = Some p"
proof (cases "M_P (Mheap s m)")
  case (Some p')
  with assms(3,4) show ?thesis by (auto simp: acquire_def)
next
  case None
  from assms(4) None obtain c rest where c: "availPs s = Some c" "buf c = p # rest"
    and s1: "s1 = emit (EvGrabbed (M_ID (Mheap s m)) (P_ID (Pheap s p)))
                    (upd_M m (\<lambda>x. x\<lparr>M_P := Some p\<rparr>)
                       (upd_M m (\<lambda>x. x\<lparr>M_parkTime := 0\<rparr>) s
                          \<lparr>availPs := Some (c\<lparr>buf := rest\<rparr>)\<rparr>))"
    by (auto simp: acquire_def Let_def upd_M_def emit_def split: option.splits if_splits list.splits)
  let ?s' = "(upd_M m (\<lambda>x. x\<lparr>M_parkTime := 0\<rparr>) s)\<lparr>availPs := Some (c\<lparr>buf := rest\<rparr>)\<rparr>"
  have d: "distinct (Ms ?s')" "m \<in> set (Ms ?s')" using assms(1,2) by simp_all
  have b0: "bound_count ?s' q = bound_count s q"
    by (rule bound_count_eq) simp_all
  have "bound_count (upd_M m (\<lambda>x. x\<lparr>M_P := Some p\<rparr>) ?s') q
          + (if M_P (Mheap ?s' m) = Some q then 1 else 0)
        = bound_count ?s' q + (if M_P ((Mheap ?s' m)\<lparr>M_P := Some p\<rparr>) = Some q then 1 else 0)"
    using bound_count_upd_M [OF d] .
  moreover have "bound_count s1 q = bound_count (upd_M m (\<lambda>x. x\<lparr>M_P := Some p\<rparr>) ?s') q"
    unfolding s1 by (rule bound_count_eq) simp_all
  ultimately have b: "bound_count s1 q = bound_count s q + (if p = q then 1 else 0)"
    using None b0 by simp
  have pc: "pool_count s q = pool_count s1 q + (if p = q then 1 else 0)"
    using c by (simp add: s1 pool_count_def)
  have "M_P (Mheap s1 m) = Some p" "Ms s1 = Ms s" by (simp_all add: s1)
  then show ?thesis using assms(3) b pc by (simp add: one_location_def)
qed

lemma park_location:
  assumes "distinct (Ms s)" and "m \<in> set (Ms s)" and "one_location s q"
    and "M_P (Mheap s m) = Some p" and "park m p e s = Returns s'"
  shows "one_location s' q \<and> Ms s' = Ms s"
proof -
  from assms(5) obtain c where c: "availPs s = Some c"
    and s': "s' = park_clear m e (s\<lparr>availPs := Some (c\<lparr>buf := buf c @ [p]\<rparr>)\<rparr>)"
    by (auto simp: park_def send_availPs_def split: option.splits if_splits)
  let ?s1 = "s\<lparr>availPs := Some (c\<lparr>buf := buf c @ [p]\<rparr>)\<rparr>"
  let ?s2 = "upd_M m (\<lambda>x. x\<lparr>M_P := None\<rparr>) ?s1"
  have d: "distinct (Ms ?s1)" "m \<in> set (Ms ?s1)" using assms(1,2) by simp_all
  have "bound_count ?s2 q + (if M_P (Mheap ?s1 m) = Some q then 1 else 0)
        = bound_count ?s1 q + (if M_P ((Mheap ?s1 m)\<lparr>M_P := None\<rparr>) = Some q then 1 else 0)"
    using bound_count_upd_M [OF d] .
  moreover have "bound_count ?s1 q = bound_count s q"
    by (rule bound_count_eq) simp_all
  ultimately have "bound_count ?s2 q + (if p = q then 1 else 0) = bound_count s q"
    using assms(4) by simp
  moreover have "bound_count s' q = bound_count ?s2 q"
    unfolding s' park_clear_def by (rule bound_count_eq) simp_all
  moreover have "pool_count s' q = pool_count s q + (if p = q then 1 else 0)"
    using c by (simp add: s' park_clear_def pool_count_def)
  moreover have "Ms s' = Ms s" by (simp add: s' park_clear_def)
  ultimately show ?thesis using assms(3) by (auto simp: one_location_def split: if_splits)
qed

lemma steal_Cont_places:
  "steal_or_park m p e s = Cont s1 \<Longrightarrow>
     Ms s1 = Ms s \<and> availPs s1 = availPs s \<and> (\<forall>x. M_P (Mheap s1 x) = M_P (Mheap s x))"
  by (auto simp: steal_or_park_def Let_def split: if_splits list.splits)

lemma pop_head_places:
  "pop_head m p s = Returns (g, s1) \<Longrightarrow>
     Ms s1 = Ms s \<and> availPs s1 = availPs s \<and> (\<forall>x. M_P (Mheap s1 x) = M_P (Mheap s x))"
  by (auto simp: pop_head_def Let_def split: list.splits)

lemma G_Run_places:
  "G_Run sd g s = Returns s1 \<Longrightarrow>
     Ms s1 = Ms s \<and> availPs s1 = availPs s \<and> (\<forall>x. M_P (Mheap s1 x) = M_P (Mheap s x))"
  by (auto dest: G_Run_frame)

lemma after_run_location:
  assumes "distinct (Ms s)" and "m \<in> set (Ms s)" and "one_location s q"
    and "M_P (Mheap s m) = Some p" and "after_run m p e g s = Returns s'"
  shows "one_location s' q \<and> Ms s' = Ms s"
proof -
  let ?s1 = "upd_M m (\<lambda>x. x\<lparr>M_G := None\<rparr>) s"
  have pl: "one_location ?s1 q = one_location s q" by (rule places_eq) simp_all
  show ?thesis
  proof (cases "G_Status (Gheap ?s1 g) = ''done''")
    case True
    with assms(5) have "s' = emit (EvFinished (M_ID (Mheap ?s1 m)) (P_ID (Pheap ?s1 p))
                            (G_ID (Gheap ?s1 g))) ?s1"
      by (simp add: after_run_def Let_def)
    then have "one_location s' q = one_location ?s1 q" "Ms s' = Ms s"
      by (simp_all add: one_location_def bound_count_def pool_count_def)
    with pl assms(3) show ?thesis by simp
  next
    case False
    let ?s2 = "emit (EvBlockedHandoff (M_ID (Mheap ?s1 m)) (P_ID (Pheap ?s1 p))
                      (G_ID (Gheap ?s1 g))) ?s1"
    from False assms(5) have pk: "park m p e ?s2 = Returns s'"
      by (simp add: after_run_def Let_def)
    have "one_location ?s2 q = one_location ?s1 q"
      by (simp add: one_location_def bound_count_def pool_count_def)
    with pl assms(3) have o2: "one_location ?s2 q" by simp
    have d: "distinct (Ms ?s2)" "m \<in> set (Ms ?s2)" "M_P (Mheap ?s2 m) = Some p"
      using assms(1,2,4) by simp_all
    from park_location [OF d(1,2) o2 d(3) pk] show ?thesis by simp
  qed
qed

lemma run_head_location:
  assumes "distinct (Ms s)" and "m \<in> set (Ms s)" and "one_location s q"
    and "M_P (Mheap s m) = Some p" and "run_head m p e s = Returns s'"
  shows "one_location s' q \<and> Ms s' = Ms s"
proof -
  from assms(5) obtain g s1 s2 where pop: "pop_head m p s = Returns (g, s1)"
    and run: "G_Run (sender e) g s1 = Returns s2"
    and fin: "after_run m p e g s2 = Returns s'"
    by (auto simp: run_head_def split: outcome.splits prod.splits)
  note a = pop_head_places [OF pop] and b = G_Run_places [OF run]
  have pl: "one_location s2 q = one_location s q"
    by (rule places_eq) (simp_all add: a b)
  have d: "distinct (Ms s2)" "m \<in> set (Ms s2)" "M_P (Mheap s2 m) = Some p"
    using assms(1,2,4) a b by simp_all
  from after_run_location [OF d(1,2) _ d(3) fin] pl assms(3) a b show ?thesis by simp
qed

lemma scheduleOnce_location:
  assumes "distinct (Ms s)" and "m \<in> set (Ms s)" and "one_location s q"
    and "scheduleOnce m e s = Returns s'"
  shows "one_location s' q \<and> Ms s' = Ms s"
proof (cases "acquire m e s")
  case (Ret s1)
  with assms(4) have "s' = s1" by (simp add: scheduleOnce_def)
  with acquire_Ret_places [OF Ret] places_eq [of s' s q] assms(3) show ?thesis by simp
next
  case (Cont ps)
  obtain p s1 where ps: "ps = (p, s1)" by (cases ps)
  from acquire_Cont_location [OF assms(1,2,3) Cont [unfolded ps]]
  have l1: "one_location s1 q" "Ms s1 = Ms s" "M_P (Mheap s1 m) = Some p" by simp_all
  have d1: "distinct (Ms s1)" "m \<in> set (Ms s1)" using assms(1,2) l1(2) by simp_all
  show ?thesis
  proof (cases "steal_or_park m p e s1")
    case (Ret r)
    with assms(4) Cont ps have "r = Returns s'" by (simp add: scheduleOnce_def)
    with Ret have pk: "park m p e (emit (EvParking (M_ID (Mheap s1 m)) (P_ID (Pheap s1 p))) s1)
                    = Returns s'"
      using steal_or_park_Ret by metis
    let ?s2 = "emit (EvParking (M_ID (Mheap s1 m)) (P_ID (Pheap s1 p))) s1"
    have o2: "one_location ?s2 q"
      using l1(1) by (simp add: one_location_def bound_count_def pool_count_def)
    have d2: "distinct (Ms ?s2)" "m \<in> set (Ms ?s2)" "M_P (Mheap ?s2 m) = Some p"
      using d1 l1(3) by simp_all
    from park_location [OF d2(1,2) o2 d2(3) pk] l1(2) show ?thesis by simp
  next
    case c2: (Cont s2)
    with assms(4) Cont ps have rh: "run_head m p e s2 = Returns s'"
      by (simp add: scheduleOnce_def)
    note a = steal_Cont_places [OF c2]
    have o2: "one_location s2 q" using places_eq [of s2 s1 q] a l1(1) by simp
    have d2: "distinct (Ms s2)" "m \<in> set (Ms s2)" "M_P (Mheap s2 m) = Some p"
      using d1 l1(3) a by simp_all
    from run_head_location [OF d2(1,2) o2 d2(3) rh] a l1(2) show ?thesis by simp
  qed
qed

lemma acquire_slices:
  "acquire m e s = Ret s1 \<Longrightarrow> Ps s1 = Ps s \<and> Ms s1 = Ms s"
  "acquire m e s = Cont (p, s2) \<Longrightarrow> Ps s2 = Ps s \<and> Ms s2 = Ms s"
  by (auto simp: acquire_def Let_def split: option.splits if_splits list.splits)

lemma steal_or_park_slices:
  "steal_or_park m p e s = Cont s1 \<Longrightarrow> Ps s1 = Ps s \<and> Ms s1 = Ms s"
  "steal_or_park m p e s = Ret (Returns s2) \<Longrightarrow> Ps s2 = Ps s \<and> Ms s2 = Ms s"
  by (auto simp: steal_or_park_def Let_def split: if_splits list.splits dest!: park_frame)

lemma run_head_slices:
  "run_head m p e s = Returns s' \<Longrightarrow> Ps s' = Ps s \<and> Ms s' = Ms s"
  by (auto simp: run_head_def pop_head_def after_run_def Let_def
           split: list.splits outcome.splits if_splits dest!: G_Run_frame park_frame)

lemma scheduleOnce_slices:
  assumes "scheduleOnce m e s = Returns s'"
  shows "Ps s' = Ps s \<and> Ms s' = Ms s"
proof (cases "acquire m e s")
  case (Ret s1)
  with assms show ?thesis by (simp add: scheduleOnce_def acquire_slices)
next
  case (Cont ps)
  obtain p s1 where ps: "ps = (p, s1)" by (cases ps)
  have p1: "Ps s1 = Ps s \<and> Ms s1 = Ms s" using Cont ps by (simp add: acquire_slices)
  show ?thesis
  proof (cases "steal_or_park m p e s1")
    case (Ret r)
    with assms Cont ps have "steal_or_park m p e s1 = Ret (Returns s')"
      by (simp add: scheduleOnce_def)
    then show ?thesis using p1 by (simp add: steal_or_park_slices)
  next
    case c2: (Cont s2)
    from assms Cont ps c2 have "run_head m p e s2 = Returns s'"
      by (simp add: scheduleOnce_def)
    then show ?thesis using p1 c2 by (simp add: run_head_slices steal_or_park_slices)
  qed
qed

lemma publish_counts:
  assumes "send_availPs p s = Returns s1"
  shows "bound_count s1 p = bound_count s p \<and> pool_count s1 p = Suc (pool_count s p)"
proof -
  from assms obtain c where c: "availPs s = Some c"
    and s1: "s1 = s\<lparr>availPs := Some (c\<lparr>buf := buf c @ [p]\<rparr>)\<rparr>"
    by (auto simp: send_availPs_def split: option.splits if_splits)
  show ?thesis using c by (simp add: s1 bound_count_def pool_count_def)
qed

text \<open>
  C1, as the claim states it: at every instant a processor would be bound to exactly
  one worker or be in \<open>availPs\<close>, never both, the park being one atomic step. In
  \<open>demo\<close> the processor is bound to the worker and nowhere else. The worker parks:
  the send on \<open>availPs\<close> has put the processor into the buffer while \<open>m.P\<close> still
  points to it, so it is in both places; \<open>m.P = nil\<close> is the next statement, and
  with it the call returns.
\<close>

theorem park_not_atomic:
  "one_location demo 0
   \<and> steal_or_park 0 0 (tick 5 True) demo = Ret (park 0 0 (tick 5 True) (emit (EvParking 0 0) demo))
   \<and> send_availPs 0 (emit (EvParking 0 0) demo) = Returns demo_published
   \<and> M_P (Mheap demo_published 0) = Some 0
   \<and> availPs demo_published = Some \<lparr>buf = [0], cap = 1\<rparr>
   \<and> bound_count demo_published 0 = 1
   \<and> pool_count demo_published 0 = 1
   \<and> \<not> one_location demo_published 0
   \<and> scheduleOnce 0 (tick 5 True) demo = Returns (park_clear 0 (tick 5 True) demo_published)"
  by (simp add: one_location_def bound_count_def pool_count_def demo_published_def
        sched_defs demo_defs emit_def upd_M_def)

text \<open>
  C1, amended. Taking each call of \<open>scheduleOnce\<close> by a worker of \<open>s.Ms\<close> as one
  step: when every processor of \<open>s.Ps\<close> is in exactly one place before the call
  (bound to exactly one worker, or once in \<open>availPs\<close>), it is so again when the call
  returns. Inside a park the send on \<open>availPs\<close> comes first and alone: it adds the
  place in the pool and leaves the bindings as they are.
\<close>

theorem location_preserved:
  assumes "distinct (Ms s)" and "m \<in> set (Ms s)"
    and "\<forall>q \<in> set (Ps s). one_location s q"
  shows "(\<forall>s'. scheduleOnce m e s = Returns s' \<longrightarrow>
            (\<forall>q \<in> set (Ps s'). one_location s' q) \<and> Ps s' = Ps s \<and> Ms s' = Ms s)
       \<and> (\<forall>p s1. send_availPs p s = Returns s1 \<longrightarrow>
            bound_count s1 p = bound_count s p \<and> pool_count s1 p = Suc (pool_count s p))"
proof -
  have "(\<forall>q \<in> set (Ps s'). one_location s' q) \<and> Ps s' = Ps s \<and> Ms s' = Ms s"
    if r: "scheduleOnce m e s = Returns s'" for s'
  proof -
    have sl: "Ps s' = Ps s \<and> Ms s' = Ms s" using r by (rule scheduleOnce_slices)
    have "one_location s' q" if "q \<in> set (Ps s)" for q
    proof -
      have "one_location s q" using assms(3) that by blast
      with assms(1,2) have "one_location s' q \<and> Ms s' = Ms s"
        using r by (rule scheduleOnce_location)
      then show ?thesis ..
    qed
    then show ?thesis using sl by simp
  qed
  then show ?thesis using publish_counts [of _ s] by blast
qed

theorem location_preserved_witness:
  "distinct (Ms demo) \<and> 0 \<in> set (Ms demo) \<and> one_location demo 0
   \<and> (\<exists>s'. scheduleOnce 0 (tick 5 True) demo = Returns s'
          \<and> M_P (Mheap s' 0) = None
          \<and> availPs s' = Some \<lparr>buf = [0], cap = 1\<rparr>
          \<and> one_location s' 0)"
proof -
  have h: "distinct (Ms demo)" "0 \<in> set (Ms demo)" "\<forall>q \<in> set (Ps demo). one_location demo q"
    by (simp_all add: one_location_def bound_count_def pool_count_def demo_defs)
  obtain s' where r: "scheduleOnce 0 (tick 5 True) demo = Returns s'"
    and f: "M_P (Mheap s' 0) = None" "availPs s' = Some \<lparr>buf = [0], cap = 1\<rparr>"
    by (simp add: sched_defs demo_defs)
  from location_preserved [OF h, of "tick 5 True"] r
  have "\<forall>q \<in> set (Ps s'). one_location s' q" "Ps s' = Ps demo" by blast+
  then have "one_location s' 0" by (simp add: demo_def)
  moreover have "one_location demo 0" using h(3) by (simp add: demo_def)
  ultimately show ?thesis using h r f by blast
qed

end
